theory Spec2Isabelle
  imports Main
begin

section \<open>Values, contexts and events\<close>

text \<open>
  The embedding follows \<^verbatim>\<open>src/context.ts\<close>. Component instances (DOM nodes) and component
  classes (prototypes) are named by natural numbers. JavaScript values are a first-order
  datatype of plain data; an object is the list of its properties in a fixed order.
\<close>

type_synonym node = nat
type_synonym cls = nat

datatype jsval =
    Undefined
  | Null
  | Bool bool
  | Num int
  | Str string
  | Arr "jsval list"
  | Obj "(string \<times> jsval) list"

text \<open>A property key is a string or a \<^verbatim>\<open>Symbol()\<close>.\<close>

datatype pkey = Name string | Sym nat

text \<open>
  \<^verbatim>\<open>createContext(defaultValue)\<close> returns a descriptor and creates three private event
  classes. The \<open>token\<close> stands for the identity of those classes: every call of
  \<^verbatim>\<open>createContext\<close> has a token of its own, and tokens grow with the order of creation.
\<close>

record Context =
  token :: nat
  defaultValue :: jsval

definition createContext :: "nat \<Rightarrow> jsval \<Rightarrow> Context" where
  "createContext tok dv = \<lparr>token = tok, defaultValue = dv\<rparr>"

text \<open>
  The object returned by \<^verbatim>\<open>derivedContext\<close> (lines 34-75): the symbol \<open>key\<close>, the spread
  fields of the context created at line 32, and what \<^verbatim>\<open>provide\<close> closes over.
\<close>

record derived =
  key :: nat
  ctx :: Context
  contexts :: "Context list"
  derivation :: "jsval list \<Rightarrow> jsval"

definition derivedContext :: "nat \<Rightarrow> nat \<Rightarrow> Context list \<Rightarrow> (jsval list \<Rightarrow> jsval) \<Rightarrow> derived" where
  "derivedContext s tok cs f =
     \<lparr>key = s,
      ctx = createContext tok (f (map defaultValue cs)),
      contexts = cs,
      derivation = f\<rparr>"

text \<open>
  The detail of a connect event (lines 202-230): two closures made by one call of
  \<^verbatim>\<open>onConnectToProvider\<close>. They capture the consumer, the context whose validators they
  use, the consumer's property name and \<^verbatim>\<open>transform\<close>. \<open>detailId\<close> is the identity of the
  closures, and also names the retry dispatcher that \<^verbatim>\<open>stopLookingForProvider\<close> stops.
\<close>

record detail =
  detailId :: nat
  consumer :: node
  consumerCtx :: Context
  propertyName :: pkey
  transform :: "jsval \<Rightarrow> jsval"

datatype event =
    ConsumerConnectEvent Context detail
  | ConsumerDisconnectEvent Context
  | ProviderUpdateEvent Context jsval

text \<open>
  Modelled from the spec: \<^verbatim>\<open>events.js\<close> is not among the sources; lines 93-103 only declare
  the static \<^verbatim>\<open>validate\<close> of the three classes of a context. Following sections 4.1 and 9
  of the specification, a validator accepts exactly the events of its own kind that were
  created by its own context (equality of the discriminating token).
\<close>

definition validateConnect :: "Context \<Rightarrow> event \<Rightarrow> bool" where
  "validateConnect c e =
     (case e of ConsumerConnectEvent c' d \<Rightarrow> token c' = token c | _ \<Rightarrow> False)"

text \<open>
  Modelled from the spec: the static \<^verbatim>\<open>validate\<close> of the disconnect event class of a context
  (\<^verbatim>\<open>events.js\<close>), as above.
\<close>

definition validateDisconnect :: "Context \<Rightarrow> event \<Rightarrow> bool" where
  "validateDisconnect c e =
     (case e of ConsumerDisconnectEvent c' \<Rightarrow> token c' = token c | _ \<Rightarrow> False)"

text \<open>
  Modelled from the spec: the static \<^verbatim>\<open>validate\<close> of the update event class of a context
  (\<^verbatim>\<open>events.js\<close>), as above.
\<close>

definition validateUpdate :: "Context \<Rightarrow> event \<Rightarrow> bool" where
  "validateUpdate c e =
     (case e of ProviderUpdateEvent c' v \<Rightarrow> token c' = token c | _ \<Rightarrow> False)"

text \<open>
  Modelled from the spec: \<^verbatim>\<open>notEqual\<close> of \<^verbatim>\<open>utils.js\<close> is not among the sources. Section 4.3
  of the specification calls it deep structural inequality.
\<close>

definition notEqual :: "jsval \<Rightarrow> jsval \<Rightarrow> bool" where
  "notEqual a b = (a \<noteq> b)"

section \<open>Listeners and the state of the page\<close>

text \<open>
  The \<^verbatim>\<open>handle\<close> argument of \<^verbatim>\<open>watch\<close>: a callback of the application, named by a number,
  whose calls are recorded in the trace; or the callback of lines 52-55, which captures the
  variables of \<^verbatim>\<open>provideDerivedContext\<close> for one decorated class, the derived context and the
  index \<open>i\<close>. Line 52 registers that callback on \<^verbatim>\<open>this\<close>, so the \<^verbatim>\<open>this\<close> it captures is the
  node whose listeners run it.
\<close>

datatype handle =
    UserHandle nat
  | DerivedHandle cls derived nat

text \<open>Listeners for \<^verbatim>\<open>ProviderUpdateEvent.TYPE\<close>.\<close>

datatype ulistener =
    OnProviderUpdate detail
  | HandleUpdate nat Context handle

text \<open>
  Listeners for \<^verbatim>\<open>ConsumerConnectEvent.TYPE\<close>: \<^verbatim>\<open>onConsumerConnect\<close> is one function for each
  application of \<^verbatim>\<open>decorateContextProvider\<close>, named by the class and the depth of the
  decorator in the chain of wrapped callbacks.
\<close>

datatype clistener = OnConsumerConnect "cls \<times> nat" Context pkey

text \<open>
  \<^verbatim>\<open>onDisconnectFromProvider\<close> (lines 128-135) captures the provider, its context and the
  consumer's update callback. On the consumer it is wrapped in an anonymous arrow function
  (lines 210-213).
\<close>

record disconnectFn =
  fnId :: nat
  fnCtx :: Context
  fnProvider :: node
  fnUpdate :: detail

datatype dlistener =
    Direct disconnectFn
  | Wrapper nat disconnectFn

text \<open>
  The variables declared at lines 42-44: one set for each class decorated with a derived
  context, named in the state by the class and the token of the derived context. An entry
  of \<open>dispose\<close> is the function returned by \<^verbatim>\<open>watch\<close> (lines 277-279), which captures the
  element and the listener.
\<close>

record closure =
  ready :: bool
  "values" :: "jsval list"
  dispose :: "(node \<times> ulistener) list"

text \<open>The object returned by \<^verbatim>\<open>fireEventAndRetry\<close>.\<close>

record dispatcher =
  target :: node
  targetClass :: cls
  connectEvent :: event
  onFail :: "nat option"
  stopped :: bool
  attempts :: nat

datatype action =
    Dispatch node event
  | Handled nat jsval
  | CouldNotFindProvider nat cls

record world =
  contextMap :: "nat \<Rightarrow> node \<Rightarrow> jsval option"
  connectListeners :: "node \<Rightarrow> clistener list"
  disconnectListeners :: "node \<Rightarrow> dlistener list"
  updateListeners :: "node \<Rightarrow> ulistener list"
  props :: "node \<Rightarrow> pkey \<Rightarrow> jsval option"
  closures :: "cls \<times> nat \<Rightarrow> closure"
  dispatchers :: "nat \<Rightarrow> dispatcher option"
  ancestors :: "node \<Rightarrow> node list"
  trace :: "action list"
  fresh :: nat

definition emptyWorld :: world where
  "emptyWorld =
     \<lparr>contextMap = (\<lambda>t n. None),
      connectListeners = (\<lambda>n. []),
      disconnectListeners = (\<lambda>n. []),
      updateListeners = (\<lambda>n. []),
      props = (\<lambda>n p. None),
      closures = (\<lambda>b. \<lparr>ready = False, values = [], dispose = []\<rparr>),
      dispatchers = (\<lambda>k. None),
      ancestors = (\<lambda>n. []),
      trace = [],
      fresh = 0\<rparr>"

section \<open>The provider's property\<close>

text \<open>Lines 166-168.\<close>

definition get :: "Context \<Rightarrow> node \<Rightarrow> world \<Rightarrow> jsval" where
  "get c this w =
     (case contextMap w (token c) this of Some v \<Rightarrow> v | None \<Rightarrow> defaultValue c)"

text \<open>
  Lines 223-229: the consumer's update callback. The consumer's bound property is a data
  property of the instance; what a property decorator of the host framework does on
  assignment is outside \<^verbatim>\<open>context.ts\<close>.
\<close>

definition onProviderUpdate :: "detail \<Rightarrow> event \<Rightarrow> world \<Rightarrow> world" where
  "onProviderUpdate d e w =
     (case e of
        ProviderUpdateEvent c v \<Rightarrow>
          if \<not> validateUpdate (consumerCtx d) e then w
          else w\<lparr>props := (props w)(consumer d :=
                  (props w (consumer d))(propertyName d \<mapsto> transform d v))\<rparr>
      | _ \<Rightarrow> w)"

text \<open>\<^verbatim>\<open>values[i] = newValue\<close> on a JavaScript array: writing past the end leaves holes.\<close>

definition arraySet :: "jsval list \<Rightarrow> nat \<Rightarrow> jsval \<Rightarrow> jsval list" where
  "arraySet xs i v =
     (if i < length xs then xs[i := v]
      else xs @ replicate (i - length xs) Undefined @ [v])"

text \<open>
  A derived context is created (line 32) after the contexts it is derived from, which are
  arguments of \<^verbatim>\<open>derivedContext\<close>: the token of a context watched by the callback of lines
  52-55 is smaller than the token of the derived context. The recursion below is
  well-founded by this order.
\<close>

definition createdBefore :: "Context \<Rightarrow> handle \<Rightarrow> bool" where
  "createdBefore c h =
     (case h of UserHandle u \<Rightarrow> True | DerivedHandle k d i \<Rightarrow> token c < token (ctx d))"

definition watchesAbove :: "nat \<Rightarrow> ulistener \<Rightarrow> bool" where
  "watchesAbove t l =
     (case l of
        HandleUpdate wid c (DerivedHandle k d i) \<Rightarrow> t < token (ctx d)
      | _ \<Rightarrow> False)"

definition countAbove :: "ulistener list \<Rightarrow> nat \<Rightarrow> nat" where
  "countAbove L t = length (filter (watchesAbove t) L)"

text \<open>
  Dispatch of a \<^verbatim>\<open>ProviderUpdateEvent\<close> on a node, the callback given to \<^verbatim>\<open>watch\<close> (lines
  52-55 for a derived context), and the setter of lines 170-175. The three call each other:
  the setter dispatches, the listener of \<^verbatim>\<open>watch\<close> (lines 271-274) calls the handler, and the
  handler of a derived context calls \<^verbatim>\<open>sync\<close>, which assigns to the provider property of the
  derived context. \<open>dispatchUpdate n c v seen todo\<close> runs the listeners \<open>todo\<close> of node \<open>n\<close> in
  the order of registration; \<open>seen\<close> holds those already run. None of the listeners adds or
  removes a listener, so a nested dispatch on the same node finds the same list \<open>L\<close>. The
  event is delivered on its target only (see the section on the connect event).
\<close>

function (sequential)
  dispatchUpdate :: "node \<Rightarrow> Context \<Rightarrow> jsval \<Rightarrow> ulistener list \<Rightarrow> ulistener list \<Rightarrow> world \<Rightarrow> world"
  and handleCall :: "ulistener list \<Rightarrow> node \<Rightarrow> handle \<Rightarrow> jsval \<Rightarrow> world \<Rightarrow> world"
  and setFrom :: "ulistener list \<Rightarrow> Context \<Rightarrow> node \<Rightarrow> jsval \<Rightarrow> world \<Rightarrow> world"
where
  "dispatchUpdate n c v seen [] w = w"
| "dispatchUpdate n c v seen (l # todo) w =
     dispatchUpdate n c v (l # seen) todo
       (case l of
          OnProviderUpdate d \<Rightarrow> onProviderUpdate d (ProviderUpdateEvent c v) w
        | HandleUpdate wid c' h \<Rightarrow>
            if validateUpdate c' (ProviderUpdateEvent c v) \<and> createdBefore c' h
            then handleCall (rev seen @ l # todo) n h v w
            else w)"
| "handleCall L this (UserHandle u) v w = w\<lparr>trace := trace w @ [Handled u v]\<rparr>"
| "handleCall L this (DerivedHandle k d i) v w =
     (let b = (k, token (ctx d));
          w1 = w\<lparr>closures := (closures w)(b :=
                  (closures w b)\<lparr>values := arraySet (values (closures w b)) i v\<rparr>)\<rparr>
      in if ready (closures w1 b)
         then setFrom L (ctx d) this (derivation d (values (closures w1 b))) w1
         else w1)"
| "setFrom L c this newValue w =
     (if notEqual newValue (get c this w)
      then dispatchUpdate this c newValue [] L
             (w\<lparr>contextMap := (contextMap w)(token c := (contextMap w (token c))(this \<mapsto> newValue)),
                trace := trace w @ [Dispatch this (ProviderUpdateEvent c newValue)]\<rparr>)
      else w)"
  by pat_completeness auto

text \<open>Lines 170-175, with the listeners of the instance read from the page.\<close>

definition set_value :: "Context \<Rightarrow> node \<Rightarrow> jsval \<Rightarrow> world \<Rightarrow> world" where
  "set_value c this newValue w = setFrom (updateListeners w this) c this newValue w"

section \<open>The event substrate\<close>

text \<open>
  \<^verbatim>\<open>addEventListener\<close> appends a callback unless the same function is already registered
  for the type; \<^verbatim>\<open>removeEventListener\<close> removes it. Functions are compared by identity.
\<close>

definition sameUpdateFn :: "ulistener \<Rightarrow> ulistener \<Rightarrow> bool" where
  "sameUpdateFn l l' =
     (case l of
        OnProviderUpdate d \<Rightarrow>
          (case l' of OnProviderUpdate d' \<Rightarrow> detailId d = detailId d' | _ \<Rightarrow> False)
      | HandleUpdate wid c h \<Rightarrow>
          (case l' of HandleUpdate wid' c' h' \<Rightarrow> wid = wid' | _ \<Rightarrow> False))"

definition addUpdateListener :: "ulistener \<Rightarrow> ulistener list \<Rightarrow> ulistener list" where
  "addUpdateListener l ls = (if list_ex (sameUpdateFn l) ls then ls else ls @ [l])"

definition removeUpdateListener :: "ulistener \<Rightarrow> ulistener list \<Rightarrow> ulistener list" where
  "removeUpdateListener l ls = filter (\<lambda>x. \<not> sameUpdateFn l x) ls"

definition sameConnectFn :: "clistener \<Rightarrow> clistener \<Rightarrow> bool" where
  "sameConnectFn l l' =
     (case l of OnConsumerConnect f c p \<Rightarrow> (case l' of OnConsumerConnect f' c' p' \<Rightarrow> f = f'))"

definition addConnectListener :: "clistener \<Rightarrow> clistener list \<Rightarrow> clistener list" where
  "addConnectListener l ls = (if list_ex (sameConnectFn l) ls then ls else ls @ [l])"

definition removeConnectListener :: "clistener \<Rightarrow> clistener list \<Rightarrow> clistener list" where
  "removeConnectListener l ls = filter (\<lambda>x. \<not> sameConnectFn l x) ls"

definition removeDirect :: "disconnectFn \<Rightarrow> dlistener list \<Rightarrow> dlistener list" where
  "removeDirect fn ls =
     filter (\<lambda>x. case x of Direct fn' \<Rightarrow> fnId fn' \<noteq> fnId fn | Wrapper wid fn' \<Rightarrow> True) ls"

text \<open>
  Modelled from the spec: \<^verbatim>\<open>stop\<close> of the dispatcher that \<^verbatim>\<open>fireEventAndRetry\<close> returns;
  \<^verbatim>\<open>utils.js\<close> is not among the sources. Section 4.2 of the specification: \<^verbatim>\<open>start\<close>
  dispatches the event at once; while nobody has called \<^verbatim>\<open>stop\<close>, a timer dispatches it
  again, and a failed attempt beyond a threshold calls the failure callback; \<^verbatim>\<open>stop\<close> halts
  all pending retries. \<open>stop\<close> comes first here because the claiming provider calls it
  through the event detail.
\<close>

definition stop :: "nat \<Rightarrow> world \<Rightarrow> world" where
  "stop k w =
     (case dispatchers w k of
        None \<Rightarrow> w
      | Some r \<Rightarrow> w\<lparr>dispatchers := (dispatchers w)(k \<mapsto> r\<lparr>stopped := True\<rparr>)\<rparr>)"

section \<open>The consumer's callbacks held by the provider\<close>

text \<open>Lines 128-135.\<close>

definition onDisconnectFromProvider :: "disconnectFn \<Rightarrow> event \<Rightarrow> world \<Rightarrow> world" where
  "onDisconnectFromProvider fn e w =
     (if \<not> validateDisconnect (fnCtx fn) e then w
      else w\<lparr>updateListeners := (updateListeners w)(fnProvider fn :=
              removeUpdateListener (OnProviderUpdate (fnUpdate fn))
                (updateListeners w (fnProvider fn)))\<rparr>)"

text \<open>
  Lines 203-220, the \<^verbatim>\<open>onConnectToProvider\<close> of the event detail. \<^verbatim>\<open>stopLookingForProvider\<close>
  was assigned at line 248, before the event is dispatched.
\<close>

definition detailOnConnectToProvider :: "detail \<Rightarrow> disconnectFn \<Rightarrow> world \<Rightarrow> world" where
  "detailOnConnectToProvider d onDisconnect w =
     (let w1 = stop (detailId d) w;
          wid = fresh w1
      in w1\<lparr>disconnectListeners := (disconnectListeners w1)(consumer d :=
               disconnectListeners w1 (consumer d) @ [Wrapper wid onDisconnect]),
             fresh := Suc wid\<rparr>)"

text \<open>
  A listener of \<^verbatim>\<open>ConsumerDisconnectEvent.TYPE\<close> on the consumer: the arrow function of lines
  210-213 calls \<^verbatim>\<open>onDisconnectFromProvider\<close> and then \<^verbatim>\<open>off\<close>, which (lines 215-219) removes
  \<^verbatim>\<open>onDisconnectFromProvider\<close> itself from the consumer.
\<close>

definition runDisconnectListener :: "dlistener \<Rightarrow> event \<Rightarrow> world \<Rightarrow> world" where
  "runDisconnectListener l e w =
     (case l of
        Direct fn \<Rightarrow> onDisconnectFromProvider fn e w
      | Wrapper wid fn \<Rightarrow>
          (let w1 = onDisconnectFromProvider fn e w;
               el = consumer (fnUpdate fn)
           in w1\<lparr>disconnectListeners := (disconnectListeners w1)(el :=
                    removeDirect fn (disconnectListeners w1 el))\<rparr>))"

section \<open>Provider binding\<close>

text \<open>Lines 114-145. The result tells whether the handler stopped the propagation.\<close>

definition onConsumerConnect :: "Context \<Rightarrow> node \<Rightarrow> event \<Rightarrow> world \<Rightarrow> bool \<times> world" where
  "onConsumerConnect c this e w =
     (case e of
        ConsumerConnectEvent c' d \<Rightarrow>
          if \<not> validateConnect c e then (False, w)
          else
            (let w1 = w\<lparr>updateListeners := (updateListeners w)(this :=
                        addUpdateListener (OnProviderUpdate d) (updateListeners w this))\<rparr>;
                 onDisconnect = \<lparr>fnId = fresh w1, fnCtx = c, fnProvider = this, fnUpdate = d\<rparr>;
                 w2 = detailOnConnectToProvider d onDisconnect (w1\<lparr>fresh := Suc (fresh w1)\<rparr>);
                 w3 = onProviderUpdate d (ProviderUpdateEvent c (get c this w2)) w2
             in (True, w3))
      | _ \<Rightarrow> (False, w))"

text \<open>Lines 147-150 and 152-162, without the call of the wrapped callback.\<close>

definition providerConnected :: "cls \<times> nat \<Rightarrow> Context \<Rightarrow> pkey \<Rightarrow> node \<Rightarrow> world \<Rightarrow> world" where
  "providerConnected f c p this w =
     w\<lparr>connectListeners := (connectListeners w)(this :=
         addConnectListener (OnConsumerConnect f c p) (connectListeners w this))\<rparr>"

definition providerDisconnected :: "cls \<times> nat \<Rightarrow> Context \<Rightarrow> pkey \<Rightarrow> node \<Rightarrow> world \<Rightarrow> world" where
  "providerDisconnected f c p this w =
     w\<lparr>connectListeners := (connectListeners w)(this :=
         removeConnectListener (OnConsumerConnect f c p) (connectListeners w this)),
       contextMap := (contextMap w)(token c := (contextMap w (token c))(this := None))\<rparr>"

section \<open>Dispatch of the connect and disconnect events\<close>

text \<open>
  Modelled from the spec: the event classes of \<^verbatim>\<open>events.js\<close> are not among the sources.
  Section 4.1 of the specification: a connect event bubbles from the consumer to its
  ancestors, innermost first, until a handler stops it; the other two events are delivered
  on their target only. \<^verbatim>\<open>stopImmediatePropagation\<close> also skips the remaining listeners of
  the node.
\<close>

fun runConnectListeners :: "clistener list \<Rightarrow> node \<Rightarrow> event \<Rightarrow> world \<Rightarrow> bool \<times> world" where
  "runConnectListeners [] n e w = (False, w)"
| "runConnectListeners (OnConsumerConnect f c p # ls) n e w =
     (case onConsumerConnect c n e w of
        (True, w') \<Rightarrow> (True, w')
      | (False, w') \<Rightarrow> runConnectListeners ls n e w')"

text \<open>
  Modelled from the spec: the bubbling of a connect event along the nodes of its path
  (\<^verbatim>\<open>events.js\<close> and the host's event dispatch), as above.
\<close>

fun propagate :: "node list \<Rightarrow> event \<Rightarrow> world \<Rightarrow> bool \<times> world" where
  "propagate [] e w = (False, w)"
| "propagate (n # ns) e w =
     (case runConnectListeners (connectListeners w n) n e w of
        (True, w') \<Rightarrow> (True, w')
      | (False, w') \<Rightarrow> propagate ns e w')"

text \<open>
  Modelled from the spec: \<^verbatim>\<open>dispatchEvent\<close> of a connect event on a node, which is offered to
  the node itself and then to its ancestors.
\<close>

definition dispatchConnect :: "node \<Rightarrow> event \<Rightarrow> world \<Rightarrow> world" where
  "dispatchConnect n e w =
     snd (propagate (n # ancestors w n) e (w\<lparr>trace := trace w @ [Dispatch n e]\<rparr>))"

text \<open>
  Modelled from the spec: \<^verbatim>\<open>dispatchEvent\<close> of a disconnect event, which runs the listeners
  that the node has for the type when the dispatch begins, on the node only.
\<close>

definition dispatchDisconnect :: "node \<Rightarrow> event \<Rightarrow> world \<Rightarrow> world" where
  "dispatchDisconnect n e w =
     foldl (\<lambda>w' l. runDisconnectListener l e w') (w\<lparr>trace := trace w @ [Dispatch n e]\<rparr>)
       (disconnectListeners w n)"


section \<open>The retry dispatcher\<close>

text \<open>
  Modelled from the spec: \<^verbatim>\<open>fireEventAndRetry\<close> of \<^verbatim>\<open>utils.js\<close> (section 4.2 of the
  specification) makes a dispatcher for an element, an event and a failure callback; it is
  named in the state by the identity of the event detail.
\<close>

definition fireEventAndRetry :: "nat \<Rightarrow> node \<Rightarrow> cls \<Rightarrow> event \<Rightarrow> nat option \<Rightarrow> world \<Rightarrow> world" where
  "fireEventAndRetry k el kl e cb w =
     w\<lparr>dispatchers := (dispatchers w)(k \<mapsto>
         \<lparr>target = el, targetClass = kl, connectEvent = e, onFail = cb,
          stopped = False, attempts = 0\<rparr>)\<rparr>"

text \<open>
  Modelled from the spec: \<^verbatim>\<open>start\<close> of the dispatcher (\<^verbatim>\<open>utils.js\<close>) dispatches the event at
  once.
\<close>

definition start :: "nat \<Rightarrow> world \<Rightarrow> world" where
  "start k w =
     (case dispatchers w k of
        None \<Rightarrow> w
      | Some r \<Rightarrow> dispatchConnect (target r) (connectEvent r) w)"

text \<open>Lines 232-236: \<^verbatim>\<open>noop\<close> when the option is absent.\<close>

definition onCouldNotFindProvider :: "nat option \<Rightarrow> cls \<Rightarrow> world \<Rightarrow> world" where
  "onCouldNotFindProvider cb kl w =
     (case cb of
        None \<Rightarrow> w
      | Some f \<Rightarrow> w\<lparr>trace := trace w @ [CouldNotFindProvider f kl]\<rparr>)"

text \<open>
  Modelled from the spec: one firing of the timer of the dispatcher (\<^verbatim>\<open>utils.js\<close>). A
  dispatcher that was stopped does nothing; otherwise the event is dispatched again, and a
  failed attempt counts; from \<open>threshold\<close> failed attempts on, the failure callback is called.
\<close>

definition retry :: "nat \<Rightarrow> nat \<Rightarrow> world \<Rightarrow> world" where
  "retry threshold k w =
     (case dispatchers w k of
        None \<Rightarrow> w
      | Some r \<Rightarrow>
          if stopped r then w
          else
            (let w1 = dispatchConnect (target r) (connectEvent r) w
             in case dispatchers w1 k of
                  None \<Rightarrow> w1
                | Some r1 \<Rightarrow>
                    if stopped r1 then w1
                    else
                      (let w2 = w1\<lparr>dispatchers := (dispatchers w1)(k \<mapsto>
                                   r1\<lparr>attempts := Suc (attempts r1)\<rparr>)\<rparr>
                       in if threshold \<le> Suc (attempts r1)
                          then onCouldNotFindProvider (onFail r1) (targetClass r1) w2
                          else w2)))"

section \<open>Consumer binding\<close>

text \<open>The options of \<^verbatim>\<open>consume\<close>; a callback of the application is named by a number.\<close>

record options =
  transformOpt :: "(jsval \<Rightarrow> jsval) option"
  onCouldNotFindProviderOpt :: "nat option"

text \<open>Line 189.\<close>

definition transformOf :: "options \<Rightarrow> jsval \<Rightarrow> jsval" where
  "transformOf opts = (case transformOpt opts of Some f \<Rightarrow> f | None \<Rightarrow> (\<lambda>v. v))"

text \<open>Lines 197-250.\<close>

definition onConnectToProvider :: "cls \<Rightarrow> Context \<Rightarrow> options \<Rightarrow> pkey \<Rightarrow> node \<Rightarrow> world \<Rightarrow> world" where
  "onConnectToProvider kl c opts p this w =
     (let d = \<lparr>detailId = fresh w, consumer = this, consumerCtx = c, propertyName = p,
               transform = transformOf opts\<rparr>;
          w1 = fireEventAndRetry (detailId d) this kl (ConsumerConnectEvent c d)
                 (onCouldNotFindProviderOpt opts) (w\<lparr>fresh := Suc (fresh w)\<rparr>)
      in start (detailId d) w1)"

text \<open>Lines 257-260, without the call of the wrapped callback.\<close>

definition consumerDisconnected :: "Context \<Rightarrow> node \<Rightarrow> world \<Rightarrow> world" where
  "consumerDisconnected c this w = dispatchDisconnect this (ConsumerDisconnectEvent c) w"

section \<open>Watching a node\<close>

text \<open>Lines 264-280: the result is the unsubscribe function and the new state.\<close>

definition watch :: "Context \<Rightarrow> node \<Rightarrow> handle \<Rightarrow> world \<Rightarrow> (node \<times> ulistener) \<times> world" where
  "watch c el h w =
     (let w1 = handleCall (updateListeners w el) el h (get c el w) w;
          handleUpdate = HandleUpdate (fresh w1) c h;
          w2 = w1\<lparr>updateListeners := (updateListeners w1)(el :=
                  addUpdateListener handleUpdate (updateListeners w1 el)),
                fresh := Suc (fresh w1)\<rparr>
      in ((el, handleUpdate), w2))"

text \<open>Lines 277-279: calling the function returned by \<^verbatim>\<open>watch\<close>.\<close>

definition unwatch :: "node \<times> ulistener \<Rightarrow> world \<Rightarrow> world" where
  "unwatch fn w =
     (case fn of (el, handleUpdate) \<Rightarrow>
        w\<lparr>updateListeners := (updateListeners w)(el :=
            removeUpdateListener handleUpdate (updateListeners w el))\<rparr>)"

section \<open>Derived contexts\<close>

text \<open>Lines 46-48: \<^verbatim>\<open>this[key]\<close> is the provider property installed at line 72.\<close>

definition sync :: "cls \<Rightarrow> derived \<Rightarrow> node \<Rightarrow> world \<Rightarrow> world" where
  "sync kl d this w =
     set_value (ctx d) this (derivation d (values (closures w (kl, token (ctx d))))) w"

text \<open>Lines 51-58: the loop over \<^verbatim>\<open>contexts\<close>, from index \<open>i\<close> on.\<close>

fun watchEach :: "cls \<Rightarrow> derived \<Rightarrow> node \<Rightarrow> Context list \<Rightarrow> nat \<Rightarrow> world \<Rightarrow> world" where
  "watchEach kl d this [] i w = w"
| "watchEach kl d this (c # cs) i w =
     (case watch c this (DerivedHandle kl d i) w of
        (stopFn, w1) \<Rightarrow>
          (let b = (kl, token (ctx d))
           in watchEach kl d this cs (Suc i)
                (w1\<lparr>closures := (closures w1)(b :=
                   (closures w1 b)\<lparr>dispose := dispose (closures w1 b) @ [stopFn]\<rparr>)\<rparr>)))"

text \<open>Lines 50-64 and 66-70, without the call of the wrapped callback.\<close>

definition derivedConnected :: "cls \<Rightarrow> derived \<Rightarrow> node \<Rightarrow> world \<Rightarrow> world" where
  "derivedConnected kl d this w =
     (let b = (kl, token (ctx d));
          w1 = watchEach kl d this (contexts d) 0 w;
          w2 = w1\<lparr>closures := (closures w1)(b := (closures w1 b)\<lparr>ready := True\<rparr>)\<rparr>
      in sync kl d this w2)"

definition derivedDisconnected :: "cls \<Rightarrow> derived \<Rightarrow> node \<Rightarrow> world \<Rightarrow> world" where
  "derivedDisconnected kl d this w =
     (let b = (kl, token (ctx d));
          w1 = w\<lparr>closures := (closures w)(b := (closures w b)\<lparr>ready := False\<rparr>)\<rparr>
      in foldl (\<lambda>w' fn. unwatch fn w') w1 (dispose (closures w1 b)))"

section \<open>Decorated classes and their lifecycle callbacks\<close>

text \<open>
  A decorator saves the callbacks of the prototype and installs its own, which run the
  decorator's logic and then the saved callback. A prototype is the list of the wrappers
  installed on it, the last one first; the class itself defines no lifecycle callback, so
  the innermost \<^verbatim>\<open>isFunction\<close> test fails.
\<close>

datatype decorator =
    Provide Context pkey
  | Consume Context options pkey
  | ProvideDerived derived

definition provide :: "Context \<Rightarrow> pkey \<Rightarrow> decorator list \<Rightarrow> decorator list" where
  "provide c p proto = Provide c p # proto"

definition consume :: "Context \<Rightarrow> options \<Rightarrow> pkey \<Rightarrow> decorator list \<Rightarrow> decorator list" where
  "consume c opts p proto = Consume c opts p # proto"


fun connectedCallback :: "cls \<Rightarrow> decorator list \<Rightarrow> node \<Rightarrow> world \<Rightarrow> world" where
  "connectedCallback kl [] this w = w"
| "connectedCallback kl (Provide c p # orig) this w =
     connectedCallback kl orig this (providerConnected (kl, length orig) c p this w)"
| "connectedCallback kl (Consume c opts p # orig) this w =
     connectedCallback kl orig this (onConnectToProvider kl c opts p this w)"
| "connectedCallback kl (ProvideDerived d # orig) this w =
     connectedCallback kl orig this (derivedConnected kl d this w)"

fun disconnectedCallback :: "cls \<Rightarrow> decorator list \<Rightarrow> node \<Rightarrow> world \<Rightarrow> world" where
  "disconnectedCallback kl [] this w = w"
| "disconnectedCallback kl (Provide c p # orig) this w =
     disconnectedCallback kl orig this (providerDisconnected (kl, length orig) c p this w)"
| "disconnectedCallback kl (Consume c opts p # orig) this w =
     disconnectedCallback kl orig this (consumerDisconnected c this w)"
| "disconnectedCallback kl (ProvideDerived d # orig) this w =
     disconnectedCallback kl orig this (derivedDisconnected kl d this w)"

section \<open>JavaScript addition, for the example of the specification\<close>





section \<open>Observations used in the statements\<close>

text \<open>
  The update events of context \<open>c\<close> that were dispatched from node \<open>p\<close>, in order.
\<close>

definition isUpdateOf :: "Context \<Rightarrow> node \<Rightarrow> action \<Rightarrow> bool" where
  "isUpdateOf c p a =
     (case a of
        Dispatch n (ProviderUpdateEvent c' v) \<Rightarrow> n = p \<and> token c' = token c
      | _ \<Rightarrow> False)"

definition updatesOf :: "Context \<Rightarrow> node \<Rightarrow> world \<Rightarrow> action list" where
  "updatesOf c p w = filter (isUpdateOf c p) (trace w)"

text \<open>
  \<open>frame t w w'\<close>: the step from \<open>w\<close> to \<open>w'\<close> touched no store and no closure of a context
  with a token below \<open>t\<close>, dispatched no update event of such a context, and left the
  listeners, the dispatchers and the flags and dispose lists of all closures alone.
\<close>

definition updateBelow :: "nat \<Rightarrow> action \<Rightarrow> bool" where
  "updateBelow t a =
     (case a of Dispatch n (ProviderUpdateEvent c v) \<Rightarrow> token c < t | _ \<Rightarrow> False)"

definition frame :: "nat \<Rightarrow> world \<Rightarrow> world \<Rightarrow> bool" where
  "frame t w w' \<longleftrightarrow>
     (\<forall>t'<t. contextMap w' t' = contextMap w t') \<and>
     (\<forall>kl t'. t' < t \<longrightarrow> closures w' (kl, t') = closures w (kl, t')) \<and>
     filter (updateBelow t) (trace w') = filter (updateBelow t) (trace w) \<and>
     (\<forall>b. ready (closures w' b) = ready (closures w b) \<and>
          dispose (closures w' b) = dispose (closures w b)) \<and>
     updateListeners w' = updateListeners w \<and>
     connectListeners w' = connectListeners w \<and>
     disconnectListeners w' = disconnectListeners w \<and>
     dispatchers w' = dispatchers w \<and>
     ancestors w' = ancestors w \<and>
     fresh w' = fresh w"

definition level :: "handle \<Rightarrow> nat" where
  "level h = (case h of UserHandle u \<Rightarrow> 0 | DerivedHandle kl d i \<Rightarrow> token (ctx d))"

text \<open>
  \<open>accepts c l\<close>: the connect listener \<open>l\<close> belongs to a provider binding whose validator
  accepts the connect events of context \<open>c\<close>. \<open>provides c w m\<close>: node \<open>m\<close> has such a listener.
\<close>

definition accepts :: "Context \<Rightarrow> clistener \<Rightarrow> bool" where
  "accepts c l = (case l of OnConsumerConnect f c' p \<Rightarrow> token c' = token c)"

definition provides :: "Context \<Rightarrow> world \<Rightarrow> node \<Rightarrow> bool" where
  "provides c w m = list_ex (accepts c) (connectListeners w m)"

definition isWrapper :: "dlistener \<Rightarrow> bool" where
  "isWrapper l = (case l of Wrapper wid fn \<Rightarrow> True | Direct fn \<Rightarrow> False)"

text \<open>
  The unsubscribe functions that the loop of lines 51-58 pushes for the contexts \<open>cs\<close>, from
  index \<open>i\<close> on, when the next fresh function identity is \<open>f\<close>.
\<close>

fun stopFns :: "cls \<Rightarrow> derived \<Rightarrow> node \<Rightarrow> Context list \<Rightarrow> nat \<Rightarrow> nat \<Rightarrow> (node \<times> ulistener) list" where
  "stopFns kl d this [] i f = []"
| "stopFns kl d this (c # cs) i f =
     (this, HandleUpdate f c (DerivedHandle kl d i)) # stopFns kl d this cs (Suc i) (Suc f)"















text \<open>\<open>idBelow f l\<close>: the function identity of listener \<open>l\<close> was allocated before \<open>f\<close>.\<close>

definition idBelow :: "nat \<Rightarrow> ulistener \<Rightarrow> bool" where
  "idBelow f l =
     (case l of OnProviderUpdate x \<Rightarrow> detailId x < f | HandleUpdate wid c h \<Rightarrow> wid < f)"

section \<open>Example values\<close>

definition c0 :: Context where
  "c0 = createContext 0 (Num 0)"

definition twoProviders :: world where
  "twoProviders =
     set_value c0 2 (Num 7) (set_value c0 1 (Num 5)
       (connectedCallback 10 (provide c0 (Name ''a'') []) 1 emptyWorld))"

definition c1 :: Context where
  "c1 = createContext 1 (Num 0)"

definition d0 :: detail where
  "d0 = \<lparr>detailId = 0, consumer = 2, consumerCtx = c0, propertyName = Name ''x'',
          transform = (\<lambda>v. v)\<rparr>"

definition fn0 :: disconnectFn where
  "fn0 = \<lparr>fnId = 1, fnCtx = c0, fnProvider = 1, fnUpdate = d0\<rparr>"

definition nestedProviders :: world where
  "nestedProviders =
     connectedCallback 10 (provide c0 (Name ''a'') []) 1
       (connectedCallback 10 (provide c0 (Name ''a'') []) 0
          (emptyWorld\<lparr>ancestors := (\<lambda>n. if n = 2 then [1, 0] else [])\<rparr>))"

definition opts0 :: options where
  "opts0 = \<lparr>transformOpt = None, onCouldNotFindProviderOpt = Some 7\<rparr>"

definition nestedSet :: world where
  "nestedSet = set_value c0 1 (Num 5) nestedProviders"

definition loneConsumer :: world where
  "loneConsumer = connectedCallback 20 (consume c0 opts0 (Name ''x'') []) 5 emptyWorld"

definition detached :: world where
  "detached = disconnectedCallback 20 (consume c0 opts0 (Name ''x'') []) 5 loneConsumer"

definition connect0 :: event where
  "connect0 = ConsumerConnectEvent c0
     \<lparr>detailId = 0, consumer = 5, consumerCtx = c0, propertyName = Name ''x'',
      transform = \<lambda>v. v\<rparr>"

definition pending0 :: dispatcher where
  "pending0 = \<lparr>target = 5, targetClass = 20, connectEvent = connect0, onFail = Some 7,
               stopped = False, attempts = 0\<rparr>"

definition watched :: "(node \<times> ulistener) \<times> world" where
  "watched = watch c0 1 (UserHandle 4) twoProviders"

definition dA :: derived where
  "dA = derivedContext 9 5 [c0] Arr"




definition fiveAtThree :: world where
  "fiveAtThree = set_value c0 3 (Num 5) emptyWorld"

section \<open>Termination of the update dispatch\<close>

lemma countAbove_mono: "t \<le> t' \<Longrightarrow> countAbove L t' \<le> countAbove L t"
  unfolding countAbove_def
  by (induction L) (auto simp: watchesAbove_def split: ulistener.splits handle.splits)

lemma countAbove_app: "countAbove (xs @ ys) t = countAbove xs t + countAbove ys t"
  by (simp add: countAbove_def)

lemma countAbove_rev: "countAbove (rev xs) t = countAbove xs t"
  by (simp add: countAbove_def flip: rev_filter)

lemma countAbove_Cons:
  "countAbove (x # xs) t = (if watchesAbove t x then 1 else 0) + countAbove xs t"
  by (simp add: countAbove_def)

lemma countAbove_less:
  assumes "t < token (ctx d)"
  shows "countAbove (rev seen @ HandleUpdate wid c' (DerivedHandle k d i) # todo) (token (ctx d))
       < countAbove (seen @ HandleUpdate wid c' (DerivedHandle k d i) # todo) t"
proof -
  have "countAbove seen (token (ctx d)) \<le> countAbove seen t"
    and "countAbove todo (token (ctx d)) \<le> countAbove todo t"
    using assms by (simp_all add: countAbove_mono)
  then show ?thesis
    using assms
    by (simp add: countAbove_app countAbove_Cons countAbove_rev watchesAbove_def)
qed

termination dispatchUpdate
proof (relation "inv_image (less_than <*lex*> less_than <*lex*> less_than)
     (\<lambda>x. case x of
        Inl (n, c, v, seen, todo, w) \<Rightarrow> (countAbove (seen @ todo) (token c), 0::nat, length todo)
      | Inr (Inl (L, n, h, v, w)) \<Rightarrow>
          (case h of
             UserHandle u \<Rightarrow> (0, 0, 0)
           | DerivedHandle k d i \<Rightarrow> (countAbove L (token (ctx d)), 2, 0))
      | Inr (Inr (L, c, n, v, w)) \<Rightarrow> (countAbove L (token c), 1, 0))", goal_cases)
  case 1
  show ?case by (intro wf_inv_image wf_lex_prod wf_less_than)
next
  case (2 n c v seen l todo w wid c' h)
  then show ?case
    by (cases h) (auto simp: validateUpdate_def createdBefore_def countAbove_less)
next
  case (3 n c v seen l todo w)
  show ?case by (simp add: countAbove_app countAbove_Cons)
next
  case (4 L this k d i v w)
  then show ?case by simp
next
  case (5 L c this newValue w)
  then show ?case by simp
qed

section \<open>What an update dispatch leaves alone\<close>

lemma frame_refl: "frame t w w"
  by (simp add: frame_def)

lemma frame_trans: "frame t w w1 \<Longrightarrow> frame t w1 w2 \<Longrightarrow> frame t w w2"
  by (simp add: frame_def)

lemma updateBelow_mono: "t' \<le> t \<Longrightarrow> updateBelow t' a \<Longrightarrow> updateBelow t a"
  by (auto simp: updateBelow_def split: action.splits event.splits)

lemma filter_updateBelow_mono:
  assumes "t' \<le> t" "filter (updateBelow t) xs = filter (updateBelow t) ys"
  shows "filter (updateBelow t') xs = filter (updateBelow t') ys"
proof -
  have "filter (updateBelow t') zs = filter (updateBelow t') (filter (updateBelow t) zs)" for zs
    using assms(1) by (auto simp: updateBelow_mono intro: filter_cong)
  then show ?thesis using assms(2) by metis
qed

lemma frame_mono:
  assumes "t' \<le> t" "frame t w w'"
  shows "frame t' w w'"
proof -
  have "filter (updateBelow t') (trace w') = filter (updateBelow t') (trace w)"
    using assms by (intro filter_updateBelow_mono[of t' t]) (simp_all add: frame_def)
  then show ?thesis
    using assms by (simp add: frame_def)
qed

lemma frame_onProviderUpdate: "frame t w (onProviderUpdate d e w)"
  by (simp add: frame_def onProviderUpdate_def split: event.splits)

lemma frame_UserHandle: "frame t w (handleCall L this (UserHandle u) v w)"
  by (simp add: frame_def updateBelow_def)

lemma frame_dispatch:
  "frame (Suc (token c)) w (dispatchUpdate n c v seen todo w)"
  "frame (level h) w (handleCall L this h v' w)"
  "frame (token c') w (setFrom L c' this' nv w)"
proof (induction n c v seen todo w and L this h v' w and L c' this' nv w
       rule: dispatchUpdate_handleCall_setFrom.induct)
  case (1 n c v seen w)
  then show ?case by (simp add: frame_refl)
next
  case (2 n c v seen l todo w)
  let ?w1 = "(case l of
          OnProviderUpdate d \<Rightarrow> onProviderUpdate d (ProviderUpdateEvent c v) w
        | HandleUpdate wid c' h \<Rightarrow>
            if validateUpdate c' (ProviderUpdateEvent c v) \<and> createdBefore c' h
            then handleCall (rev seen @ l # todo) n h v w
            else w)"
  have a: "frame (Suc (token c)) w ?w1"
  proof (cases l)
    case (OnProviderUpdate d)
    then have "?w1 = onProviderUpdate d (ProviderUpdateEvent c v) w" by simp
    then show ?thesis by (simp only: frame_onProviderUpdate)
  next
    case (HandleUpdate wid c' h)
    show ?thesis
    proof (cases "validateUpdate c' (ProviderUpdateEvent c v) \<and> createdBefore c' h")
      case True
      have "frame (Suc (token c)) w (handleCall (rev seen @ l # todo) n h v w)"
      proof (cases h)
        case (UserHandle u)
        then show ?thesis by (simp only: frame_UserHandle)
      next
        case (DerivedHandle kl d i)
        with "2.IH"(1)[OF HandleUpdate True]
        have "frame (token (ctx d)) w (handleCall (rev seen @ l # todo) n h v w)" by (simp add: level_def)
        moreover have "Suc (token c) \<le> token (ctx d)"
          using True DerivedHandle by (simp add: validateUpdate_def createdBefore_def)
        ultimately show ?thesis by (rule frame_mono[rotated])
      qed
      moreover have "?w1 = handleCall (rev seen @ l # todo) n h v w"
        using True unfolding HandleUpdate by (simp del: handleCall.simps)
      ultimately show ?thesis by (simp only:)
    next
      case False
      have "?w1 = w" using False unfolding HandleUpdate by (auto simp del: handleCall.simps)
      then show ?thesis by (simp only: frame_refl)
    qed
  qed
  have b: "frame (Suc (token c)) ?w1 (dispatchUpdate n c v (l # seen) todo ?w1)"
    using "2.IH"(2) .
  show ?case by (subst dispatchUpdate.simps) (rule frame_trans[OF a b])
next
  case (3 L this u v w)
  show ?case by (rule frame_UserHandle)
next
  case (4 L this k d i v w)
  let ?b = "(k, token (ctx d))"
  let ?w1 = "w\<lparr>closures := (closures w)(?b :=
                  (closures w ?b)\<lparr>values := arraySet (values (closures w ?b)) i v\<rparr>)\<rparr>"
  have a: "frame (token (ctx d)) w ?w1"
    by (simp add: frame_def)
  show ?case
  proof (cases "ready (closures ?w1 ?b)")
    case True
    have "frame (token (ctx d)) ?w1 (setFrom L (ctx d) this (derivation d (values (closures ?w1 ?b))) ?w1)"
      using "4.IH"[OF refl refl True] .
    with a have "frame (token (ctx d)) w (setFrom L (ctx d) this (derivation d (values (closures ?w1 ?b))) ?w1)"
      by (rule frame_trans)
    then show ?thesis using True by (simp add: Let_def level_def)
  next
    case False
    then show ?thesis using a by (simp add: Let_def level_def)
  qed
next
  case (5 L c this newValue w)
  show ?case
  proof (cases "notEqual newValue (get c this w)")
    case True
    have "frame (token c) (w\<lparr>contextMap := (contextMap w)(token c := (contextMap w (token c))(this \<mapsto> newValue)),
                trace := trace w @ [Dispatch this (ProviderUpdateEvent c newValue)]\<rparr>)
            (setFrom L c this newValue w)"
      using frame_mono[OF _ "5.IH"[OF True], of "token c"] True by simp
    moreover have "frame (token c) w (w\<lparr>contextMap := (contextMap w)(token c := (contextMap w (token c))(this \<mapsto> newValue)),
                trace := trace w @ [Dispatch this (ProviderUpdateEvent c newValue)]\<rparr>)"
      by (simp add: frame_def updateBelow_def)
    ultimately show ?thesis using frame_trans by blast
  next
    case False
    then show ?thesis by (simp add: frame_refl)
  qed
qed

section \<open>The setter\<close>

lemma isUpdateOf_below: "isUpdateOf c p a \<Longrightarrow> updateBelow (Suc (token c)) a"
  by (auto simp: isUpdateOf_def updateBelow_def split: action.splits event.splits)

lemma updatesOf_frame:
  assumes "frame (Suc (token c)) w w'"
  shows "updatesOf c p w' = updatesOf c p w"
proof -
  have "filter (isUpdateOf c p) xs = filter (isUpdateOf c p) (filter (updateBelow (Suc (token c))) xs)" for xs
    by (auto simp: isUpdateOf_below intro: filter_cong)
  then have "filter (isUpdateOf c p) (trace w') = filter (isUpdateOf c p) (trace w)"
    using assms by (metis frame_def)
  then show ?thesis by (simp add: updatesOf_def)
qed

lemma get_frame: "frame (Suc (token c)) w w' \<Longrightarrow> get c p w' = get c p w"
  by (simp add: frame_def get_def)

lemma setFrom_equal: "\<not> notEqual nv (get c p w) \<Longrightarrow> setFrom L c p nv w = w"
  by simp

lemma setFrom_changed:
  assumes "notEqual nv (get c p w)"
  shows "get c p (setFrom L c p nv w) = nv"
    and "updatesOf c p (setFrom L c p nv w) = updatesOf c p w @ [Dispatch p (ProviderUpdateEvent c nv)]"
proof -
  let ?w1 = "w\<lparr>contextMap := (contextMap w)(token c := (contextMap w (token c))(p \<mapsto> nv)),
                trace := trace w @ [Dispatch p (ProviderUpdateEvent c nv)]\<rparr>"
  have eq: "setFrom L c p nv w = dispatchUpdate p c nv [] L ?w1"
    using assms by simp
  have fr: "frame (Suc (token c)) ?w1 (setFrom L c p nv w)"
    unfolding eq by (rule frame_dispatch(1))
  show "get c p (setFrom L c p nv w) = nv"
    using get_frame[OF fr, of p] by (simp add: get_def)
  show "updatesOf c p (setFrom L c p nv w) = updatesOf c p w @ [Dispatch p (ProviderUpdateEvent c nv)]"
    using updatesOf_frame[OF fr, of p] by (simp add: updatesOf_def isUpdateOf_def)
qed

lemma get_set_value: "get c p (set_value c p v w) = v"
proof (cases "notEqual v (get c p w)")
  case True
  then show ?thesis by (simp add: set_value_def setFrom_changed(1) del: setFrom.simps)
next
  case False
  then show ?thesis by (simp add: set_value_def notEqual_def)
qed

text \<open>
  Claim C1, as amended. A set with a value equal to the provider's current (or default)
  value returns the state unchanged: no store entry is written and no event is dispatched.
  A set with an unequal value stores the value and dispatches exactly one update event of
  the context from the provider, carrying that value. For equal values \<open>v\<close> and \<open>v2\<close>, the
  second of two sets in a row changes nothing, so the two sets dispatch at most one event:
  one when \<open>v\<close> differs from the value held before, none otherwise.
\<close>

theorem set_equal_value_is_suppressed:
  "(\<not> notEqual v (get c p w) \<longrightarrow> set_value c p v w = w) \<and>
   (notEqual v (get c p w) \<longrightarrow>
      get c p (set_value c p v w) = v \<and>
      updatesOf c p (set_value c p v w) = updatesOf c p w @ [Dispatch p (ProviderUpdateEvent c v)]) \<and>
   (\<not> notEqual v v2 \<longrightarrow>
      set_value c p v2 (set_value c p v w) = set_value c p v w \<and>
      length (updatesOf c p (set_value c p v2 (set_value c p v w))) =
        length (updatesOf c p w) + (if notEqual v (get c p w) then 1 else 0))"
proof (intro conjI impI)
  assume "\<not> notEqual v (get c p w)"
  then show "set_value c p v w = w" by (simp add: set_value_def)
next
  assume "notEqual v (get c p w)"
  then show "get c p (set_value c p v w) = v"
    by (simp add: set_value_def setFrom_changed(1) del: setFrom.simps)
next
  assume "notEqual v (get c p w)"
  then show "updatesOf c p (set_value c p v w) = updatesOf c p w @ [Dispatch p (ProviderUpdateEvent c v)]"
    by (simp add: set_value_def setFrom_changed(2) del: setFrom.simps)
next
  assume e: "\<not> notEqual v v2"
  have "\<not> notEqual v2 (get c p (set_value c p v w))"
    using e by (simp add: get_set_value notEqual_def)
  then show again: "set_value c p v2 (set_value c p v w) = set_value c p v w"
    by (simp add: set_value_def[of c p v2])
  show "length (updatesOf c p (set_value c p v2 (set_value c p v w))) =
        length (updatesOf c p w) + (if notEqual v (get c p w) then 1 else 0)"
    unfolding again
    by (cases "notEqual v (get c p w)")
       (simp_all add: set_value_def setFrom_changed(2) setFrom_equal del: setFrom.simps)
qed

theorem set_equal_value_is_suppressed_witness:
  "notEqual (Num 1) (get c0 1 emptyWorld) \<and> \<not> notEqual (Num 1) (Num 1) \<and>
   get c0 1 (set_value c0 1 (Num 1) emptyWorld) = Num 1 \<and>
   length (updatesOf c0 1 (set_value c0 1 (Num 1) (set_value c0 1 (Num 1) emptyWorld))) = 1"
  using set_equal_value_is_suppressed[of "Num 1" c0 1 emptyWorld "Num 1"]
  by (simp add: notEqual_def get_def c0_def createContext_def emptyWorld_def updatesOf_def)

text \<open>
  Claim C1 as stated fails: a provider that was never set holds the default value; two sets
  of that value in a row dispatch no update event, not one.
\<close>

theorem set_default_twice_counterexample:
  "\<not> notEqual (Num 0) (Num 0) \<and>
   length (updatesOf c0 1 (set_value c0 1 (Num 0) (set_value c0 1 (Num 0) emptyWorld))) \<noteq> 1"
  by (simp add: notEqual_def get_def c0_def createContext_def emptyWorld_def updatesOf_def set_value_def)

section \<open>Reading the provider's property\<close>

text \<open>
  Claim C2. \<open>get\<close> returns the value stored for the provider in the store of the context,
  and the default value of the context when the store has no entry for it; in particular it
  returns the value last given to the setter. \<open>get\<close> is a total function of the state that
  returns a value only: it cannot fail and it has no state to hand back.
\<close>

theorem get_returns_stored_or_default:
  "(contextMap w (token c) p = Some v \<longrightarrow> get c p w = v) \<and>
   (contextMap w (token c) p = None \<longrightarrow> get c p w = defaultValue c) \<and>
   get c p (set_value c p v' w) = v'"
  by (simp add: get_set_value) (simp add: get_def)

theorem get_returns_stored_or_default_witness:
  "contextMap twoProviders (token c0) 1 = Some (Num 5) \<and> get c0 1 twoProviders = Num 5 \<and>
   contextMap twoProviders (token c0) 3 = None \<and> get c0 3 twoProviders = defaultValue c0"
  using get_returns_stored_or_default[of twoProviders c0 1 "Num 5"]
    get_returns_stored_or_default[of twoProviders c0 3]
  by (simp add: twoProviders_def c0_def createContext_def emptyWorld_def provide_def
      providerConnected_def addConnectListener_def set_value_def notEqual_def get_def)

section \<open>Detaching a provider\<close>

text \<open>
  Claim C6. The \<^verbatim>\<open>disconnectedCallback\<close> of a class decorated with \<^verbatim>\<open>provide\<close> removes the
  connect listener of the instance and deletes the entry of that instance from the store of
  the context. The entries of all other providers, and the stores of all other contexts,
  are unchanged. Afterwards \<open>get\<close> on the detached provider returns the default value.
\<close>

theorem provider_detach_deletes_own_entry:
  "(let w' = disconnectedCallback kl (provide c p []) this w in
     (\<forall>l \<in> set (connectListeners w' this). \<not> sameConnectFn (OnConsumerConnect (kl, 0) c p) l) \<and>
     contextMap w' (token c) this = None \<and>
     get c this w' = defaultValue c \<and>
     (\<forall>q. q \<noteq> this \<longrightarrow> contextMap w' (token c) q = contextMap w (token c) q) \<and>
     (\<forall>t. t \<noteq> token c \<longrightarrow> contextMap w' t = contextMap w t))"
  by (simp add: provide_def providerDisconnected_def removeConnectListener_def get_def Let_def)

theorem provider_detach_deletes_own_entry_witness:
  "(let w' = disconnectedCallback 10 (provide c0 (Name ''a'') []) 1 twoProviders in
     connectListeners twoProviders 1 = [OnConsumerConnect (10, 0) c0 (Name ''a'')] \<and>
     connectListeners w' 1 = [] \<and>
     get c0 1 twoProviders = Num 5 \<and> get c0 1 w' = Num 0 \<and>
     (2::nat) \<noteq> 1 \<and> contextMap w' (token c0) 2 = Some (Num 7))"
  using provider_detach_deletes_own_entry[of 10 c0 "Name ''a''" 1 twoProviders]
  by (simp add: twoProviders_def c0_def createContext_def emptyWorld_def provide_def
      providerConnected_def providerDisconnected_def addConnectListener_def
      removeConnectListener_def sameConnectFn_def set_value_def notEqual_def get_def Let_def)

section \<open>Events of another context\<close>

lemma removeDirect_wrappers: "list_all isWrapper ls \<Longrightarrow> removeDirect fn ls = ls"
  by (induction ls) (auto simp: removeDirect_def isWrapper_def split: dlistener.splits)

text \<open>
  Claim C5. Let \<open>c\<close> and \<open>c'\<close> be distinct contexts (different tokens; their default values
  and the shapes of their events may be the same). An event of \<open>c'\<close> that arrives at a
  listener installed by \<open>c\<close> leaves the state as it was: the provider's connect handler
  does not stop it and registers nothing, the consumer's update callback assigns nothing,
  the provider's disconnect callback and the wrapper around it remove nothing, and the
  listener installed by \<^verbatim>\<open>watch\<close> does not call its handler.
\<close>

theorem mismatched_events_are_ignored:
  assumes "token c \<noteq> token c'"
  shows "onConsumerConnect c this (ConsumerConnectEvent c' d) w = (False, w) \<and>
         onProviderUpdate (d\<lparr>consumerCtx := c\<rparr>) (ProviderUpdateEvent c' v) w = w \<and>
         onDisconnectFromProvider (fn\<lparr>fnCtx := c\<rparr>) (ConsumerDisconnectEvent c') w = w \<and>
         (list_all isWrapper (disconnectListeners w (consumer (fnUpdate fn))) \<longrightarrow>
            runDisconnectListener (Wrapper wid (fn\<lparr>fnCtx := c\<rparr>)) (ConsumerDisconnectEvent c') w = w) \<and>
         dispatchUpdate n c' v seen [HandleUpdate wid' c h] w = w"
  using assms
  by (simp add: onConsumerConnect_def validateConnect_def onProviderUpdate_def validateUpdate_def
      onDisconnectFromProvider_def validateDisconnect_def runDisconnectListener_def
      removeDirect_wrappers Let_def)

theorem mismatched_events_are_ignored_witness:
  "token c0 \<noteq> token c1 \<and> defaultValue c0 = defaultValue c1 \<and>
   onConsumerConnect c0 1 (ConsumerConnectEvent c1 d0) twoProviders = (False, twoProviders) \<and>
   onProviderUpdate d0 (ProviderUpdateEvent c1 (Num 3)) twoProviders = twoProviders \<and>
   onDisconnectFromProvider fn0 (ConsumerDisconnectEvent c1) twoProviders = twoProviders \<and>
   list_all isWrapper (disconnectListeners twoProviders 2) \<and>
   runDisconnectListener (Wrapper 2 fn0) (ConsumerDisconnectEvent c1) twoProviders = twoProviders \<and>
   dispatchUpdate 1 c1 (Num 3) [] [HandleUpdate 3 c0 (UserHandle 0)] twoProviders = twoProviders"
proof -
  have t: "token c0 \<noteq> token c1"
    by (simp add: c0_def c1_def createContext_def)
  have l: "disconnectListeners twoProviders 2 = []"
    by (simp add: twoProviders_def c0_def createContext_def emptyWorld_def provide_def
      providerConnected_def addConnectListener_def set_value_def notEqual_def get_def)
  have "d0\<lparr>consumerCtx := c0\<rparr> = d0" "fn0\<lparr>fnCtx := c0\<rparr> = fn0" "consumer (fnUpdate fn0) = 2"
    by (simp_all add: d0_def fn0_def)
  then show ?thesis
    using mismatched_events_are_ignored[OF t, of 1 d0 twoProviders "Num 3" fn0 2 1 "[]" 3 "UserHandle 0"] t l
    by (simp add: c0_def c1_def createContext_def)
qed

section \<open>Pairing a consumer with its nearest provider\<close>

lemma onConsumerConnect_reject:
  "\<not> validateConnect c' e \<Longrightarrow> onConsumerConnect c' n e w = (False, w)"
  by (cases e) (simp_all add: onConsumerConnect_def)

lemma onConsumerConnect_claim:
  assumes "token c' = token c"
  shows "fst (onConsumerConnect c' n (ConsumerConnectEvent c d) w)"
    and "updateListeners (snd (onConsumerConnect c' n (ConsumerConnectEvent c d) w)) =
           (updateListeners w)(n := addUpdateListener (OnProviderUpdate d) (updateListeners w n))"
    and "contextMap (snd (onConsumerConnect c' n (ConsumerConnectEvent c d) w)) = contextMap w"
    and "dispatchers (snd (onConsumerConnect c' n (ConsumerConnectEvent c d) w)) =
           dispatchers (stop (detailId d) w)"
    and "token (consumerCtx d) = token c \<Longrightarrow>
         props (snd (onConsumerConnect c' n (ConsumerConnectEvent c d) w)) =
           (props w)(consumer d := (props w (consumer d))(propertyName d \<mapsto> transform d (get c' n w)))"
  using assms
  by (simp_all add: onConsumerConnect_def validateConnect_def Let_def detailOnConnectToProvider_def
      onProviderUpdate_def validateUpdate_def stop_def get_def split: option.splits)

lemma onConsumerConnect_trace: "trace (snd (onConsumerConnect c' n e w)) = trace w"
  by (simp add: onConsumerConnect_def validateConnect_def Let_def detailOnConnectToProvider_def
      onProviderUpdate_def validateUpdate_def stop_def split: option.splits event.splits)

lemma runConnectListeners_find:
  "runConnectListeners ls n (ConsumerConnectEvent c d) w =
     (case find (accepts c) ls of
        None \<Rightarrow> (False, w)
      | Some (OnConsumerConnect f c' p) \<Rightarrow> onConsumerConnect c' n (ConsumerConnectEvent c d) w)"
proof (induction ls)
  case Nil
  then show ?case by simp
next
  case (Cons l ls)
  obtain f c' p where l: "l = OnConsumerConnect f c' p" by (cases l)
  show ?case
  proof (cases "token c' = token c")
    case True
    then have "fst (onConsumerConnect c' n (ConsumerConnectEvent c d) w)"
      by (rule onConsumerConnect_claim(1))
    then show ?thesis using True l
      by (cases "onConsumerConnect c' n (ConsumerConnectEvent c d) w") (simp add: accepts_def)
  next
    case False
    then have "onConsumerConnect c' n (ConsumerConnectEvent c d) w = (False, w)"
      by (intro onConsumerConnect_reject) (simp add: validateConnect_def)
    then show ?thesis using False l Cons.IH by (simp add: accepts_def)
  qed
qed

lemma provides_find: "provides c w m \<longleftrightarrow> find (accepts c) (connectListeners w m) \<noteq> None"
  by (auto simp: provides_def list_ex_iff find_None_iff)

lemma propagate_find:
  "propagate path (ConsumerConnectEvent c d) w =
     (case find (provides c w) path of
        None \<Rightarrow> (False, w)
      | Some m \<Rightarrow> runConnectListeners (connectListeners w m) m (ConsumerConnectEvent c d) w)"
proof (induction path)
  case Nil
  then show ?case by simp
next
  case (Cons n ns)
  show ?case
  proof (cases "provides c w n")
    case True
    then obtain l where f: "find (accepts c) (connectListeners w n) = Some l"
      by (auto simp: provides_find)
    have a: "accepts c l" using f by (auto simp: find_Some_iff)
    obtain g c' p where l: "l = OnConsumerConnect g c' p" by (cases l)
    have "fst (onConsumerConnect c' n (ConsumerConnectEvent c d) w)"
      using a l by (intro onConsumerConnect_claim(1)) (simp add: accepts_def)
    then have "fst (runConnectListeners (connectListeners w n) n (ConsumerConnectEvent c d) w)"
      using f l by (simp add: runConnectListeners_find)
    then show ?thesis using True
      by (cases "runConnectListeners (connectListeners w n) n (ConsumerConnectEvent c d) w") simp
  next
    case False
    then have "runConnectListeners (connectListeners w n) n (ConsumerConnectEvent c d) w = (False, w)"
      by (simp add: runConnectListeners_find provides_find)
    then show ?thesis using False Cons.IH by simp
  qed
qed

lemma addUpdateListener_has: "list_ex (sameUpdateFn l) (addUpdateListener l ls)"
  by (auto simp: addUpdateListener_def list_ex_iff sameUpdateFn_def split: ulistener.splits)

lemma claimant_listener:
  assumes "find (provides c w) path = Some m"
  shows "\<exists>f c' p. find (accepts c) (connectListeners w m) = Some (OnConsumerConnect f c' p)"
proof -
  have "provides c w m" using assms by (auto simp: find_Some_iff)
  then obtain l where f: "find (accepts c) (connectListeners w m) = Some l"
    by (auto simp: provides_find)
  then show ?thesis by (cases l) simp
qed

lemma propagate_claimed:
  assumes "find (provides c w) path = Some m"
    and "find (accepts c) (connectListeners w m) = Some (OnConsumerConnect f c' p)"
  shows "token c' = token c"
    and "propagate path (ConsumerConnectEvent c d) w =
           onConsumerConnect c' m (ConsumerConnectEvent c d) w"
proof -
  have "accepts c (OnConsumerConnect f c' p)" using assms(2) by (auto simp: find_Some_iff)
  then show "token c' = token c" by (simp add: accepts_def)
  show "propagate path (ConsumerConnectEvent c d) w =
           onConsumerConnect c' m (ConsumerConnectEvent c d) w"
    using assms by (simp add: propagate_find runConnectListeners_find)
qed

text \<open>
  Claim C3. A connect event of context \<open>c\<close> is offered to the nodes of \<open>path\<close>, innermost
  first. The first node with a provider listener of \<open>c\<close> claims the event and stops it, and
  the consumer's update callback is registered there; the propagation is stopped exactly
  when there is such a node. The update listeners of every other node, the providers
  further out included, are unchanged: at most one provider claims the event.
\<close>

theorem nearest_provider_claims_connect:
  "(let r = propagate path (ConsumerConnectEvent c d) w in
     fst r = (find (provides c w) path \<noteq> None) \<and>
     (\<forall>m. find (provides c w) path \<noteq> Some m \<longrightarrow>
          updateListeners (snd r) m = updateListeners w m) \<and>
     (\<forall>m. find (provides c w) path = Some m \<longrightarrow>
          list_ex (sameUpdateFn (OnProviderUpdate d)) (updateListeners (snd r) m)))"
proof (cases "find (provides c w) path")
  case None
  then show ?thesis by (simp add: propagate_find)
next
  case (Some m)
  from claimant_listener[OF Some] obtain f c' p where
    g: "find (accepts c) (connectListeners w m) = Some (OnConsumerConnect f c' p)"
    by blast
  note t = propagate_claimed(1)[OF Some g] and r = propagate_claimed(2)[OF Some g, of d]
  show ?thesis
    using Some onConsumerConnect_claim(1)[OF t, of m d w] onConsumerConnect_claim(2)[OF t, of m d w]
    by (simp add: r Let_def addUpdateListener_has)
qed

lemmas example_defs = nestedProviders_def c0_def createContext_def emptyWorld_def provide_def
  providerConnected_def addConnectListener_def sameConnectFn_def set_value_def notEqual_def
  get_def

theorem nearest_provider_claims_connect_witness:
  "(let r = propagate [2, 1, 0] (ConsumerConnectEvent c0 d0) nestedProviders in
     find (provides c0 nestedProviders) [2, 1, 0] = Some 1 \<and> fst r \<and>
     (0::nat) \<noteq> 1 \<and> provides c0 nestedProviders 0 \<and>
     updateListeners (snd r) 0 = updateListeners nestedProviders 0 \<and>
     list_ex (sameUpdateFn (OnProviderUpdate d0)) (updateListeners (snd r) 1))"
proof -
  have f: "find (provides c0 nestedProviders) [2, 1, 0] = Some 1"
    and p: "provides c0 nestedProviders 0"
    by (simp_all add: example_defs provides_def accepts_def)
  show ?thesis
    using nearest_provider_claims_connect[of "[2, 1, 0]" c0 d0 nestedProviders] f p
    by (simp add: Let_def)
qed

lemma runConnectListeners_trace: "trace (snd (runConnectListeners ls n e w)) = trace w"
proof (induction ls arbitrary: w)
  case Nil
  then show ?case by simp
next
  case (Cons l ls)
  obtain f c p where l: "l = OnConsumerConnect f c p" by (cases l)
  obtain b w' where r: "onConsumerConnect c n e w = (b, w')" by (cases "onConsumerConnect c n e w")
  have "trace w' = trace w" using onConsumerConnect_trace[of c n e w] r by simp
  then show ?case using l r Cons.IH[of w'] by (cases b) simp_all
qed

lemma propagate_trace: "trace (snd (propagate path e w)) = trace w"
proof (induction path arbitrary: w)
  case Nil
  then show ?case by simp
next
  case (Cons n ns)
  obtain b w' where r: "runConnectListeners (connectListeners w n) n e w = (b, w')"
    by (cases "runConnectListeners (connectListeners w n) n e w")
  have "trace w' = trace w" using runConnectListeners_trace[of "connectListeners w n" n e w] r by simp
  then show ?case using r Cons.IH[of w'] by (cases b) simp_all
qed

lemma dispatchConnect_trace: "trace (dispatchConnect n e w) = trace w @ [Dispatch n e]"
  by (simp add: dispatchConnect_def propagate_trace del: propagate.simps)

text \<open>
  Claim C4. When the nearest provider \<open>m\<close> claims the connect event that a consumer
  dispatches on attach, the consumer's property holds, when \<^verbatim>\<open>onConnectToProvider\<close> returns,
  the transform of the provider's current value (the stored value, or the default of the
  provider's context when the store has no entry). The retry dispatcher has been stopped,
  and no update event was dispatched from the provider on the way: the value reached the
  consumer by the direct call of its callback, ahead of any later update event.
\<close>

theorem paired_consumer_gets_current_value:
  assumes "find (provides c w) (this # ancestors w this) = Some m"
    and "find (accepts c) (connectListeners w m) = Some (OnConsumerConnect f c' p')"
  shows "(let w' = onConnectToProvider kl c opts p this w in
           props w' this p = Some (transformOf opts (get c' m w)) \<and>
           map_option stopped (dispatchers w' (fresh w)) = Some True \<and>
           updatesOf c' m w' = updatesOf c' m w)"
proof -
  let ?d = "\<lparr>detailId = fresh w, consumer = this, consumerCtx = c, propertyName = p,
               transform = transformOf opts\<rparr>"
  let ?e = "ConsumerConnectEvent c ?d"
  let ?w1 = "fireEventAndRetry (fresh w) this kl ?e (onCouldNotFindProviderOpt opts)
               (w\<lparr>fresh := Suc (fresh w)\<rparr>)"
  let ?w2 = "?w1\<lparr>trace := trace ?w1 @ [Dispatch this ?e]\<rparr>"
  have eq: "onConnectToProvider kl c opts p this w = snd (propagate (this # ancestors w this) ?e ?w2)"
    by (simp add: onConnectToProvider_def Let_def start_def fireEventAndRetry_def dispatchConnect_def)
  have pr: "provides c ?w2 = provides c w"
    by (rule ext) (simp add: provides_def fireEventAndRetry_def)
  have f: "find (provides c ?w2) (this # ancestors w this) = Some m"
    using assms(1) unfolding pr .
  have g: "find (accepts c) (connectListeners ?w2 m) = Some (OnConsumerConnect f c' p')"
    using assms(2) by (simp add: fireEventAndRetry_def)
  note t = propagate_claimed(1)[OF f g] and r = propagate_claimed(2)[OF f g, of ?d]
  have "props (snd (onConsumerConnect c' m ?e ?w2)) this p = Some (transformOf opts (get c' m ?w2))"
    using onConsumerConnect_claim(5)[OF t, of ?d m ?w2] by simp
  moreover have "get c' m ?w2 = get c' m w"
    by (simp add: get_def fireEventAndRetry_def)
  moreover have "map_option stopped (dispatchers (snd (onConsumerConnect c' m ?e ?w2)) (fresh w)) = Some True"
    using onConsumerConnect_claim(4)[OF t, of m ?d ?w2] by (simp add: stop_def fireEventAndRetry_def)
  moreover have "updatesOf c' m (snd (onConsumerConnect c' m ?e ?w2)) = updatesOf c' m w"
    using onConsumerConnect_trace[of c' m ?e ?w2]
    by (simp add: updatesOf_def fireEventAndRetry_def isUpdateOf_def)
  ultimately show ?thesis
    unfolding Let_def eq r by (simp only: simp_thms)
qed

theorem paired_consumer_gets_current_value_witness:
  "(let w' = onConnectToProvider 20 c0 opts0 (Name ''x'') 2 nestedSet in
     find (provides c0 nestedSet) (2 # ancestors nestedSet 2) = Some 1 \<and>
     find (accepts c0) (connectListeners nestedSet 1) = Some (OnConsumerConnect (10, 0) c0 (Name ''a'')) \<and>
     get c0 1 nestedSet = Num 5 \<and>
     props w' 2 (Name ''x'') = Some (Num 5) \<and>
     map_option stopped (dispatchers w' (fresh nestedSet)) = Some True)"
proof -
  have f: "find (provides c0 nestedSet) (2 # ancestors nestedSet 2) = Some 1"
    and g: "find (accepts c0) (connectListeners nestedSet 1) = Some (OnConsumerConnect (10, 0) c0 (Name ''a''))"
    and v: "get c0 1 nestedSet = Num 5"
    by (simp_all add: nestedSet_def example_defs provides_def accepts_def)
  show ?thesis
    using paired_consumer_gets_current_value[OF f g, of 20 opts0 "Name ''x''"] f g v
    by (simp add: Let_def transformOf_def opts0_def)
qed

section \<open>Detaching a consumer that is still looking for a provider\<close>

lemma runDisconnectListener_keeps:
  "dispatchers (runDisconnectListener l e w) = dispatchers w"
  "trace (runDisconnectListener l e w) = trace w"
  by (simp_all add: runDisconnectListener_def onDisconnectFromProvider_def Let_def
      split: dlistener.splits)

lemma foldl_runDisconnectListener_keeps:
  "dispatchers (foldl (\<lambda>w' l. runDisconnectListener l e w') w ls) = dispatchers w"
  "trace (foldl (\<lambda>w' l. runDisconnectListener l e w') w ls) = trace w"
  by (induction ls arbitrary: w) (simp_all add: runDisconnectListener_keeps)

lemma consumerDisconnected_keeps:
  "dispatchers (consumerDisconnected c this w) = dispatchers w"
  "trace (consumerDisconnected c this w) = trace w @ [Dispatch this (ConsumerDisconnectEvent c)]"
  by (simp_all add: consumerDisconnected_def dispatchDisconnect_def foldl_runDisconnectListener_keeps)

lemma retry_dispatches:
  assumes "dispatchers w k = Some r" "\<not> stopped r"
  shows "take (Suc (length (trace w))) (trace (retry th k w)) =
           trace w @ [Dispatch (target r) (connectEvent r)]"
  using assms
  by (simp add: retry_def Let_def dispatchConnect_trace onCouldNotFindProvider_def
      split: option.splits)

text \<open>
  Claim C7, as amended. The \<^verbatim>\<open>disconnectedCallback\<close> of a consumer only dispatches the
  disconnect event; it does not call \<^verbatim>\<open>stop\<close>, so every dispatcher is as it was before.
  A dispatcher that was not stopped (no provider claimed its event) still dispatches the
  discovery event at the next firing of its timer, after the consumer has detached.
\<close>

theorem detach_leaves_retries_pending:
  "(let w' = disconnectedCallback kl (consume c opts p []) this w in
     dispatchers w' = dispatchers w \<and>
     (\<forall>k r. dispatchers w k = Some r \<and> \<not> stopped r \<longrightarrow>
        take (Suc (length (trace w'))) (trace (retry th k w')) =
          trace w' @ [Dispatch (target r) (connectEvent r)]))"
  by (simp add: consume_def Let_def consumerDisconnected_keeps(1) retry_dispatches)

lemmas lone_defs = loneConsumer_def detached_def opts0_def consume_def onConnectToProvider_def
  fireEventAndRetry_def start_def dispatchConnect_def consumerDisconnected_def
  dispatchDisconnect_def transformOf_def c0_def createContext_def emptyWorld_def Let_def

theorem detach_leaves_retries_pending_witness:
  "dispatchers loneConsumer 0 = Some pending0 \<and> \<not> stopped pending0 \<and>
   dispatchers detached = dispatchers loneConsumer \<and>
   take (Suc (length (trace detached))) (trace (retry 1 0 detached)) =
     trace detached @ [Dispatch 5 connect0]"
proof -
  have d: "dispatchers loneConsumer 0 = Some pending0" and n: "\<not> stopped pending0"
    by (simp_all add: lone_defs pending0_def connect0_def)
  note T = detach_leaves_retries_pending[of 20 c0 opts0 "Name ''x''" 5 loneConsumer 1,
      unfolded Let_def, folded detached_def]
  have "take (Suc (length (trace detached))) (trace (retry 1 0 detached)) =
     trace detached @ [Dispatch (target pending0) (connectEvent pending0)]"
    using T[THEN conjunct2, rule_format, of 0 pending0] d n by simp
  then show ?thesis
    using T[THEN conjunct1] d n by (simp add: pending0_def)
qed

text \<open>
  Claim C7 as stated fails: a consumer without a provider attaches and detaches; its
  dispatcher is not stopped, and the next retry dispatches the connect event again and
  calls \<^verbatim>\<open>onCouldNotFindProvider\<close>.
\<close>

theorem detached_consumer_still_retries_counterexample:
  "map_option stopped (dispatchers detached 0) = Some False \<and>
   trace (retry 1 0 detached) =
     trace detached @ [Dispatch 5 connect0, CouldNotFindProvider 7 20]"
  by (simp add: lone_defs retry_def onCouldNotFindProvider_def connect0_def)

section \<open>Watching a node from outside\<close>

lemma removeUpdateListener_appended:
  assumes "\<not> list_ex (sameUpdateFn l) ls" "sameUpdateFn l l"
  shows "removeUpdateListener l (ls @ [l]) = ls"
  using assms by (simp add: removeUpdateListener_def list_ex_iff)

text \<open>
  Claim C9. \<^verbatim>\<open>watch\<close> calls the handler exactly once at subscription time, with the value
  stored for the node in this context or the default of the context, before it registers
  the listener. The listener is a new function, so it is appended to the listeners of the
  node; it passes the value of an update event of the context to the handler. Calling the
  returned function removes the listener again: the listeners of every node are those from
  before the subscription, and nothing else is called.
\<close>

theorem watch_calls_handler_then_subscribes:
  "(case watch c el (UserHandle u) w of
      (stopFn, w') \<Rightarrow>
        trace w' = trace w @ [Handled u (get c el w)] \<and>
        (\<not> list_ex (sameUpdateFn (HandleUpdate (fresh w) c (UserHandle u))) (updateListeners w el) \<longrightarrow>
           updateListeners w' =
             (updateListeners w)(el := updateListeners w el @ [HandleUpdate (fresh w) c (UserHandle u)]) \<and>
           dispatchUpdate el c v seen [HandleUpdate (fresh w) c (UserHandle u)] w' =
             w'\<lparr>trace := trace w' @ [Handled u v]\<rparr> \<and>
           updateListeners (unwatch stopFn w') = updateListeners w \<and>
           trace (unwatch stopFn w') = trace w'))"
proof -
  have s: "sameUpdateFn (HandleUpdate (fresh w) c (UserHandle u)) (HandleUpdate (fresh w) c (UserHandle u))"
    by (simp add: sameUpdateFn_def)
  show ?thesis
    by (auto simp: watch_def Let_def addUpdateListener_def unwatch_def validateUpdate_def
        createdBefore_def removeUpdateListener_appended[OF _ s])
qed

theorem watch_calls_handler_then_subscribes_witness:
  "\<not> list_ex (sameUpdateFn (HandleUpdate (fresh twoProviders) c0 (UserHandle 4)))
       (updateListeners twoProviders 1) \<and>
   trace (snd watched) = trace twoProviders @ [Handled 4 (Num 5)] \<and>
   updateListeners (snd watched) 1 = [HandleUpdate 0 c0 (UserHandle 4)] \<and>
   trace (set_value c0 1 (Num 6) (snd watched)) =
     trace (snd watched) @ [Dispatch 1 (ProviderUpdateEvent c0 (Num 6)), Handled 4 (Num 6)] \<and>
   updateListeners (unwatch (fst watched) (snd watched)) 1 = [] \<and>
   trace (set_value c0 1 (Num 6) (unwatch (fst watched) (snd watched))) =
     trace (snd watched) @ [Dispatch 1 (ProviderUpdateEvent c0 (Num 6))]"
proof -
  have a: "\<not> list_ex (sameUpdateFn (HandleUpdate (fresh twoProviders) c0 (UserHandle 4)))
             (updateListeners twoProviders 1)"
    and b: "updateListeners twoProviders 1 = []" and f: "fresh twoProviders = 0"
    and g: "get c0 1 twoProviders = Num 5"
    by (simp_all add: twoProviders_def c0_def createContext_def emptyWorld_def provide_def
      providerConnected_def addConnectListener_def set_value_def notEqual_def get_def)
  obtain stopFn w' where r: "watch c0 1 (UserHandle 4) twoProviders = (stopFn, w')"
    by (cases "watch c0 1 (UserHandle 4) twoProviders")
  note T = watch_calls_handler_then_subscribes[where c=c0 and el=1 and u=4 and w=twoProviders
      and v="Num 6" and seen="[]", unfolded r prod.case]
  note T2 = T[THEN conjunct2, THEN mp, OF a]
  have tr: "trace w' = trace twoProviders @ [Handled 4 (Num 5)]"
    using T[THEN conjunct1] g by simp
  have u: "updateListeners w' 1 = [HandleUpdate 0 c0 (UserHandle 4)]"
    using T2[THEN conjunct1] b f by simp
  have un: "updateListeners (unwatch stopFn w') 1 = []"
    using T2[THEN conjunct2, THEN conjunct2, THEN conjunct1] b by simp
  have m: "contextMap w' = contextMap twoProviders"
    using r by (auto simp: watch_def Let_def)
  have mu: "contextMap (unwatch stopFn w') = contextMap w'" "trace (unwatch stopFn w') = trace w'"
    by (cases stopFn; simp add: unwatch_def)+
  have gw: "get c0 1 w' = Num 5" "get c0 1 (unwatch stopFn w') = Num 5"
    using g m mu by (simp_all add: get_def)
  have s1: "trace (set_value c0 1 (Num 6) w') =
     trace w' @ [Dispatch 1 (ProviderUpdateEvent c0 (Num 6)), Handled 4 (Num 6)]"
    using gw u by (simp add: set_value_def notEqual_def validateUpdate_def createdBefore_def)
  have s2: "trace (set_value c0 1 (Num 6) (unwatch stopFn w')) =
     trace w' @ [Dispatch 1 (ProviderUpdateEvent c0 (Num 6))]"
    using gw un mu by (simp add: set_value_def notEqual_def)
  have sw: "snd watched = w'" "fst watched = stopFn"
    unfolding watched_def r by simp_all
  show ?thesis
    unfolding sw using a tr u un s1 s2 by (simp only: simp_thms)
qed

section \<open>The closure of a derived provider\<close>

lemma frame_flags:
  assumes "frame t w w'"
  shows "ready (closures w' b) = ready (closures w b)"
    and "dispose (closures w' b) = dispose (closures w b)"
    and "fresh w' = fresh w"
    and "updateListeners w' = updateListeners w"
  using assms by (cases b; simp add: frame_def)+

lemma watch_fst: "fst (watch c el h w) = (el, HandleUpdate (fresh w) c h)"
  using frame_flags(3)[OF frame_dispatch(2)[where h=h and L="updateListeners w el" and this=el
        and v'="get c el w" and w=w]]
  by (simp add: watch_def Let_def del: handleCall.simps)

lemma watch_snd:
  "ready (closures (snd (watch c el h w)) b) = ready (closures w b)"
  "dispose (closures (snd (watch c el h w)) b) = dispose (closures w b)"
  "fresh (snd (watch c el h w)) = Suc (fresh w)"
proof -
  note f = frame_dispatch(2)[where h=h and L="updateListeners w el" and this=el
        and v'="get c el w" and w=w]
  show "ready (closures (snd (watch c el h w)) b) = ready (closures w b)"
    using frame_flags(1)[OF f, of b] by (simp add: watch_def Let_def del: handleCall.simps)
  show "dispose (closures (snd (watch c el h w)) b) = dispose (closures w b)"
    using frame_flags(2)[OF f, of b] by (simp add: watch_def Let_def del: handleCall.simps)
  show "fresh (snd (watch c el h w)) = Suc (fresh w)"
    using frame_flags(3)[OF f] by (simp add: watch_def Let_def del: handleCall.simps)
qed

lemma watchEach_all:
  "dispose (closures (watchEach kl d this cs i w) (kl, token (ctx d))) =
     dispose (closures w (kl, token (ctx d))) @ stopFns kl d this cs i (fresh w) \<and>
   ready (closures (watchEach kl d this cs i w) (kl, token (ctx d))) =
     ready (closures w (kl, token (ctx d))) \<and>
   fresh (watchEach kl d this cs i w) = fresh w + length cs"
proof (induction cs arbitrary: i w)
  case Nil
  show ?case by simp
next
  case (Cons c cs)
  obtain stopFn w1 where r: "watch c this (DerivedHandle kl d i) w = (stopFn, w1)"
    by (cases "watch c this (DerivedHandle kl d i) w")
  have s: "stopFn = (this, HandleUpdate (fresh w) c (DerivedHandle kl d i))"
    using watch_fst[of c this "DerivedHandle kl d i" w] r by simp
  have w1: "ready (closures w1 b) = ready (closures w b)"
    "dispose (closures w1 b) = dispose (closures w b)" "fresh w1 = Suc (fresh w)" for b
    using watch_snd[of c this "DerivedHandle kl d i" w] r by simp_all
  let ?b = "(kl, token (ctx d))"
  let ?w2 = "w1\<lparr>closures := (closures w1)(?b :=
                   (closures w1 ?b)\<lparr>dispose := dispose (closures w1 ?b) @ [stopFn]\<rparr>)\<rparr>"
  have e: "watchEach kl d this (c # cs) i w = watchEach kl d this cs (Suc i) ?w2"
    using r by (simp add: Let_def)
  show ?case
    unfolding e using Cons.IH[of "Suc i" ?w2] s w1 by simp
qed

lemmas watchEach_closure =
  watchEach_all[THEN conjunct1] watchEach_all[THEN conjunct2, THEN conjunct1]
  watchEach_all[THEN conjunct2, THEN conjunct2]

lemma length_stopFns: "length (stopFns kl d this cs i f) = length cs"
  by (induction cs arbitrary: i f) simp_all

lemma set_value_flags:
  "ready (closures (set_value c p v w) b) = ready (closures w b)"
  "dispose (closures (set_value c p v w) b) = dispose (closures w b)"
  "fresh (set_value c p v w) = fresh w"
proof -
  note f = frame_dispatch(3)[where c'=c and L="updateListeners w p" and this'=p
        and nv=v and w=w]
  show "ready (closures (set_value c p v w) b) = ready (closures w b)"
    using frame_flags(1)[OF f, of b] by (simp add: set_value_def del: setFrom.simps)
  show "dispose (closures (set_value c p v w) b) = dispose (closures w b)"
    using frame_flags(2)[OF f, of b] by (simp add: set_value_def del: setFrom.simps)
  show "fresh (set_value c p v w) = fresh w"
    using frame_flags(3)[OF f] by (simp add: set_value_def del: setFrom.simps)
qed

lemma derivedConnected_closure:
  "dispose (closures (derivedConnected kl d this w) (kl, token (ctx d))) =
     dispose (closures w (kl, token (ctx d))) @ stopFns kl d this (contexts d) 0 (fresh w)"
  "ready (closures (derivedConnected kl d this w) (kl, token (ctx d)))"
  "fresh (derivedConnected kl d this w) = fresh w + length (contexts d)"
  by (simp_all add: derivedConnected_def Let_def sync_def set_value_flags watchEach_closure)

lemma unwatch_keeps:
  "closures (unwatch fn w) = closures w" "fresh (unwatch fn w) = fresh w"
  by (cases fn; simp add: unwatch_def)+

lemma foldl_unwatch_keeps:
  "closures (foldl (\<lambda>w' fn. unwatch fn w') w fns) = closures w"
  "fresh (foldl (\<lambda>w' fn. unwatch fn w') w fns) = fresh w"
  by (induction fns arbitrary: w) (simp_all add: unwatch_keeps)

lemma derivedDisconnected_closure:
  "dispose (closures (derivedDisconnected kl d this w) (kl, token (ctx d))) =
     dispose (closures w (kl, token (ctx d)))"
  "\<not> ready (closures (derivedDisconnected kl d this w) (kl, token (ctx d)))"
  "fresh (derivedDisconnected kl d this w) = fresh w"
  by (simp_all add: derivedDisconnected_def Let_def foldl_unwatch_keeps)

lemma unwatch_absent:
  "\<not> list_ex (sameUpdateFn l) (updateListeners w el) \<Longrightarrow>
   \<not> list_ex (sameUpdateFn l) (updateListeners (unwatch fn w) el)"
  by (cases fn) (auto simp: unwatch_def removeUpdateListener_def list_ex_iff)

lemma unwatch_removes: "\<not> list_ex (sameUpdateFn l) (updateListeners (unwatch (el, l) w) el)"
  by (auto simp: unwatch_def removeUpdateListener_def list_ex_iff)

lemma foldl_unwatch_absent:
  "\<not> list_ex (sameUpdateFn l) (updateListeners w el) \<Longrightarrow>
   \<not> list_ex (sameUpdateFn l) (updateListeners (foldl (\<lambda>w' fn. unwatch fn w') w fns) el)"
  by (induction fns arbitrary: w) (simp_all add: unwatch_absent)

lemma foldl_unwatch_removes:
  "(el, l) \<in> set fns \<Longrightarrow>
   \<not> list_ex (sameUpdateFn l) (updateListeners (foldl (\<lambda>w' fn. unwatch fn w') w fns) el)"
proof (induction fns arbitrary: w)
  case Nil
  then show ?case by simp
next
  case (Cons fn fns)
  show ?case
  proof (cases "fn = (el, l)")
    case True
    then show ?thesis using foldl_unwatch_absent[OF unwatch_removes, of l el w fns] by simp
  next
    case False
    then show ?thesis using Cons by simp
  qed
qed

lemma derivedDisconnected_releases:
  assumes "(el, l) \<in> set (dispose (closures w (kl, token (ctx d))))"
  shows "\<not> list_ex (sameUpdateFn l) (updateListeners (derivedDisconnected kl d this w) el)"
  using assms by (simp add: derivedDisconnected_def Let_def foldl_unwatch_removes)

section \<open>Derived contexts follow their upstream contexts\<close>

lemma setFrom_get: "get c p (setFrom L c p v w) = v"
proof (cases "notEqual v (get c p w)")
  case True
  then show ?thesis by (simp add: setFrom_changed(1) del: setFrom.simps)
next
  case False
  then show ?thesis by (simp add: notEqual_def)
qed












section \<open>Attaching a derived provider brings it in step\<close>

lemma addUpdateListener_fresh:
  assumes "list_all (idBelow f) ls"
  shows "addUpdateListener (HandleUpdate f c h) ls = ls @ [HandleUpdate f c h]"
proof -
  have "\<not> sameUpdateFn (HandleUpdate f c h) l" if "l \<in> set ls" for l
    using assms that
    by (cases l) (auto simp: sameUpdateFn_def idBelow_def list_all_iff)
  then show ?thesis by (simp add: addUpdateListener_def list_ex_iff)
qed

lemma idBelow_mono: "idBelow f l \<Longrightarrow> f \<le> g \<Longrightarrow> idBelow g l"
  by (cases l) (auto simp: idBelow_def)

lemma watch_unready:
  assumes "\<not> ready (closures w (kl, token (ctx d)))"
    and "list_all (idBelow (fresh w)) (updateListeners w n)"
  shows "snd (watch c n (DerivedHandle kl d i) w) =
           w\<lparr>closures := (closures w)((kl, token (ctx d)) := (closures w (kl, token (ctx d)))
                 \<lparr>values := arraySet (values (closures w (kl, token (ctx d)))) i (get c n w)\<rparr>),
             updateListeners := (updateListeners w)(n :=
                 updateListeners w n @ [HandleUpdate (fresh w) c (DerivedHandle kl d i)]),
             fresh := Suc (fresh w)\<rparr>"
  using assms by (simp add: watch_def Let_def addUpdateListener_fresh)

lemma arraySet_fill:
  assumes "i \<le> length vs"
  shows "take (Suc i) (arraySet vs i v) = take i vs @ [v]"
    and "drop (Suc (i + k)) (arraySet vs i v) = drop (Suc (i + k)) vs"
    and "Suc i \<le> length (arraySet vs i v)"
  using assms
  by (auto simp: arraySet_def take_Suc_conv_app_nth upd_conv_take_nth_drop add.commute)

lemma watchEach_unready:
  "\<not> ready (closures w (kl, token (ctx d))) \<Longrightarrow>
   list_all (idBelow (fresh w)) (updateListeners w n) \<Longrightarrow>
   i \<le> length (values (closures w (kl, token (ctx d)))) \<Longrightarrow>
   contextMap (watchEach kl d n cs i w) = contextMap w \<and>
   updateListeners (watchEach kl d n cs i w) n =
     updateListeners w n @ map snd (stopFns kl d n cs i (fresh w)) \<and>
   values (closures (watchEach kl d n cs i w) (kl, token (ctx d))) =
     take i (values (closures w (kl, token (ctx d)))) @ map (\<lambda>c. get c n w) cs @
     drop (i + length cs) (values (closures w (kl, token (ctx d))))"
proof (induction cs arbitrary: i w)
  case Nil
  then show ?case by simp
next
  case (Cons c cs)
  let ?b = "(kl, token (ctx d))"
  let ?vs = "values (closures w ?b)"
  let ?l = "HandleUpdate (fresh w) c (DerivedHandle kl d i)"
  let ?w1 = "w\<lparr>closures := (closures w)(?b := (closures w ?b)
                 \<lparr>values := arraySet ?vs i (get c n w)\<rparr>),
             updateListeners := (updateListeners w)(n := updateListeners w n @ [?l]),
             fresh := Suc (fresh w)\<rparr>"
  let ?w2 = "?w1\<lparr>closures := (closures ?w1)(?b :=
                   (closures ?w1 ?b)\<lparr>dispose := dispose (closures ?w1 ?b) @ [(n, ?l)]\<rparr>)\<rparr>"
  have w: "watch c n (DerivedHandle kl d i) w = ((n, ?l), ?w1)"
    using watch_unready[OF Cons.prems(1,2), of c i] watch_fst[of c n "DerivedHandle kl d i" w]
    by (simp add: prod_eq_iff)
  have e: "watchEach kl d n (c # cs) i w = watchEach kl d n cs (Suc i) ?w2"
    by (simp add: w Let_def)
  have p1: "\<not> ready (closures ?w2 ?b)" using Cons.prems(1) by simp
  have p2: "list_all (idBelow (fresh ?w2)) (updateListeners ?w2 n)"
  proof -
    have "list_all (idBelow (Suc (fresh w))) (updateListeners w n)"
      using Cons.prems(2) idBelow_mono[of "fresh w" _ "Suc (fresh w)"]
      by (auto simp: list_all_iff)
    moreover have "idBelow (Suc (fresh w)) ?l" by (simp add: idBelow_def)
    ultimately show ?thesis by simp
  qed
  have p3: "Suc i \<le> length (values (closures ?w2 ?b))"
    using arraySet_fill(3)[OF Cons.prems(3)] by simp
  have g: "get c' n ?w2 = get c' n w" for c' by (simp add: get_def)
  note ih = Cons.IH[OF p1 p2 p3]
  have v: "take (Suc i) (values (closures ?w2 ?b)) = take i ?vs @ [get c n w]"
    "drop (Suc i + length cs) (values (closures ?w2 ?b)) = drop (i + length (c # cs)) ?vs"
    using arraySet_fill(1,2)[OF Cons.prems(3)] by simp_all
  show ?case
    unfolding e using ih unfolding v g by simp
qed

section \<open>The slots of the class and the values of an instance\<close>

lemma setFrom_closure:
  "closures (setFrom L c p v w) (kl, token c) = closures w (kl, token c)"
proof (cases "notEqual v (get c p w)")
  case True
  let ?w1 = "w\<lparr>contextMap := (contextMap w)(token c := (contextMap w (token c))(p \<mapsto> v)),
                trace := trace w @ [Dispatch p (ProviderUpdateEvent c v)]\<rparr>"
  have "frame (Suc (token c)) ?w1 (dispatchUpdate p c v [] L ?w1)"
    by (rule frame_dispatch(1))
  then have "closures (dispatchUpdate p c v [] L ?w1) (kl, token c) = closures ?w1 (kl, token c)"
    by (simp add: frame_def)
  then show ?thesis using True by simp
next
  case False
  then show ?thesis by simp
qed

text \<open>The handler of lines 52-55 on a class whose flag is set.\<close>

lemma slot_write:
  assumes r: "ready (closures w (kl, token (ctx d)))"
  shows "values (closures (handleCall L n (DerivedHandle kl d j) v w) (kl, token (ctx d))) =
           arraySet (values (closures w (kl, token (ctx d)))) j v"
    and "get (ctx d) n (handleCall L n (DerivedHandle kl d j) v w) =
           derivation d (arraySet (values (closures w (kl, token (ctx d)))) j v)"
    and "frame (token (ctx d)) w (handleCall L n (DerivedHandle kl d j) v w)"
proof -
  let ?b = "(kl, token (ctx d))"
  let ?vs = "arraySet (values (closures w ?b)) j v"
  let ?w1 = "w\<lparr>closures := (closures w)(?b := (closures w ?b)\<lparr>values := ?vs\<rparr>)\<rparr>"
  have e: "handleCall L n (DerivedHandle kl d j) v w = setFrom L (ctx d) n (derivation d ?vs) ?w1"
    using r by (simp add: Let_def del: setFrom.simps)
  show "values (closures (handleCall L n (DerivedHandle kl d j) v w) ?b) = ?vs"
    unfolding e by (simp add: setFrom_closure del: setFrom.simps)
  show "get (ctx d) n (handleCall L n (DerivedHandle kl d j) v w) = derivation d ?vs"
    unfolding e by (rule setFrom_get)
  show "frame (token (ctx d)) w (handleCall L n (DerivedHandle kl d j) v w)"
    using frame_dispatch(2)[of "DerivedHandle kl d j" w L n v] by (simp add: level_def del: handleCall.simps)
qed






















section \<open>One closure for all instances of a class\<close>

lemma handleCall_slot:
  "values (closures (handleCall L n (DerivedHandle kl d i) v w) (kl, token (ctx d))) =
     arraySet (values (closures w (kl, token (ctx d)))) i v"
proof (cases "ready (closures w (kl, token (ctx d)))")
  case True
  then show ?thesis by (rule slot_write(1))
next
  case False
  then show ?thesis by (simp add: Let_def)
qed

lemma addUpdateListener_ids:
  "list_all (idBelow f) ls \<Longrightarrow> idBelow f l \<Longrightarrow> list_all (idBelow f) (addUpdateListener l ls)"
  by (simp add: addUpdateListener_def)

lemma list_all_idBelow_mono:
  "list_all (idBelow f) ls \<Longrightarrow> f \<le> g \<Longrightarrow> list_all (idBelow g) ls"
  using idBelow_mono by (auto simp: list_all_iff)

lemma watch_ids:
  assumes "list_all (idBelow (fresh w)) (updateListeners w m)"
  shows "list_all (idBelow (fresh (snd (watch c el h w)))) (updateListeners (snd (watch c el h w)) m)"
proof -
  let ?w1 = "handleCall (updateListeners w el) el h (get c el w) w"
  have f: "frame (level h) w ?w1" by (rule frame_dispatch(2))
  have fr: "fresh ?w1 = fresh w" and ls: "updateListeners ?w1 = updateListeners w"
    using frame_flags(3,4)[OF f] by simp_all
  have a: "list_all (idBelow (Suc (fresh w))) (updateListeners w m)"
    using list_all_idBelow_mono[OF assms, of "Suc (fresh w)"] by simp
  have b: "idBelow (Suc (fresh w)) (HandleUpdate (fresh w) c h)" by (simp add: idBelow_def)
  show ?thesis
    using a addUpdateListener_ids[OF a b]
    by (auto simp: watch_def Let_def fr ls simp del: handleCall.simps)
qed

lemma watchEach_ids:
  "list_all (idBelow (fresh w)) (updateListeners w m) \<Longrightarrow>
   list_all (idBelow (fresh (watchEach kl d n cs i w))) (updateListeners (watchEach kl d n cs i w) m)"
proof (induction cs arbitrary: i w)
  case Nil
  then show ?case by simp
next
  case (Cons c cs)
  obtain stopFn w1 where r: "watch c n (DerivedHandle kl d i) w = (stopFn, w1)"
    by (cases "watch c n (DerivedHandle kl d i) w")
  let ?b = "(kl, token (ctx d))"
  let ?w2 = "w1\<lparr>closures := (closures w1)(?b :=
                   (closures w1 ?b)\<lparr>dispose := dispose (closures w1 ?b) @ [stopFn]\<rparr>)\<rparr>"
  have "list_all (idBelow (fresh w1)) (updateListeners w1 m)"
    using watch_ids[OF Cons.prems, of c n "DerivedHandle kl d i"] r by simp
  then have "list_all (idBelow (fresh ?w2)) (updateListeners ?w2 m)" by simp
  then have "list_all (idBelow (fresh (watchEach kl d n cs (Suc i) ?w2)))
     (updateListeners (watchEach kl d n cs (Suc i) ?w2) m)"
    by (rule Cons.IH)
  then show ?case using r by (simp add: Let_def)
qed

lemma derivedConnected_ids:
  assumes "list_all (idBelow (fresh w)) (updateListeners w m)"
  shows "list_all (idBelow (fresh (derivedConnected kl d n w)))
           (updateListeners (derivedConnected kl d n w) m)"
proof -
  let ?b = "(kl, token (ctx d))"
  let ?w1 = "watchEach kl d n (contexts d) 0 w"
  let ?w2 = "?w1\<lparr>closures := (closures ?w1)(?b := (closures ?w1 ?b)\<lparr>ready := True\<rparr>)\<rparr>"
  let ?v = "derivation d (values (closures ?w2 ?b))"
  have a: "list_all (idBelow (fresh ?w2)) (updateListeners ?w2 m)"
    using watchEach_ids[OF assms, of kl d n "contexts d" 0] by simp
  have f: "frame (token (ctx d)) ?w2 (set_value (ctx d) n ?v ?w2)"
    unfolding set_value_def by (rule frame_dispatch(3))
  have "list_all (idBelow (fresh (set_value (ctx d) n ?v ?w2)))
          (updateListeners (set_value (ctx d) n ?v ?w2) m)"
    using a frame_flags(3,4)[OF f] by simp
  then show ?thesis
    by (simp add: derivedConnected_def Let_def sync_def)
qed

lemma unwatch_ids:
  "list_all (idBelow f) (updateListeners w m) \<Longrightarrow>
   list_all (idBelow f) (updateListeners (unwatch fn w) m)"
  by (cases fn) (auto simp: unwatch_def removeUpdateListener_def list_all_iff)

lemma foldl_unwatch_ids:
  "list_all (idBelow f) (updateListeners w m) \<Longrightarrow>
   list_all (idBelow f) (updateListeners (foldl (\<lambda>w' fn. unwatch fn w') w fns) m)"
  by (induction fns arbitrary: w) (simp_all add: unwatch_ids)

lemma derivedDisconnected_ids:
  assumes "list_all (idBelow (fresh w)) (updateListeners w m)"
  shows "list_all (idBelow (fresh (derivedDisconnected kl d n w)))
           (updateListeners (derivedDisconnected kl d n w) m)"
  using assms
  by (simp add: derivedDisconnected_def Let_def foldl_unwatch_keeps foldl_unwatch_ids)

lemma derivedDisconnected_slots:
  "values (closures (derivedDisconnected kl d n w) (kl, token (ctx d))) =
     values (closures w (kl, token (ctx d)))"
  by (simp add: derivedDisconnected_def Let_def foldl_unwatch_keeps)

lemma derivedConnected_slots:
  assumes unready: "\<not> ready (closures w (kl, token (ctx d)))"
    and ids: "list_all (idBelow (fresh w)) (updateListeners w n)"
  shows "values (closures (derivedConnected kl d n w) (kl, token (ctx d))) =
           map (\<lambda>c. get c n w) (contexts d) @
           drop (length (contexts d)) (values (closures w (kl, token (ctx d))))"
proof -
  let ?b = "(kl, token (ctx d))"
  let ?w1 = "watchEach kl d n (contexts d) 0 w"
  let ?w2 = "?w1\<lparr>closures := (closures ?w1)(?b := (closures ?w1 ?b)\<lparr>ready := True\<rparr>)\<rparr>"
  note u = watchEach_unready[OF unready ids, of 0 "contexts d", simplified]
  have e: "derivedConnected kl d n w =
             setFrom (updateListeners ?w2 n) (ctx d) n (derivation d (values (closures ?w2 ?b))) ?w2"
    by (simp add: derivedConnected_def Let_def sync_def set_value_def del: setFrom.simps)
  show ?thesis
    unfolding e using u by (simp add: setFrom_closure del: setFrom.simps)
qed


lemma watch_store:
  "t < level h \<Longrightarrow> contextMap (snd (watch c el h w)) t = contextMap w t"
  using frame_dispatch(2)[of h w "updateListeners w el" el "get c el w"]
  by (simp add: watch_def Let_def frame_def del: handleCall.simps)

lemma watchEach_store:
  "t < token (ctx d) \<Longrightarrow> contextMap (watchEach kl d n cs i w) t = contextMap w t"
proof (induction cs arbitrary: i w)
  case Nil
  then show ?case by simp
next
  case (Cons c cs)
  obtain stopFn w1 where r: "watch c n (DerivedHandle kl d i) w = (stopFn, w1)"
    by (cases "watch c n (DerivedHandle kl d i) w")
  have "contextMap w1 t = contextMap w t"
    using watch_store[of t "DerivedHandle kl d i" c n w] Cons.prems r by (simp add: level_def)
  then show ?case using r Cons by (simp add: Let_def)
qed

lemma derivedConnected_store:
  assumes "t < token (ctx d)"
  shows "contextMap (derivedConnected kl d n w) t = contextMap w t"
proof -
  let ?b = "(kl, token (ctx d))"
  let ?w1 = "watchEach kl d n (contexts d) 0 w"
  let ?w2 = "?w1\<lparr>closures := (closures ?w1)(?b := (closures ?w1 ?b)\<lparr>ready := True\<rparr>)\<rparr>"
  let ?v = "derivation d (values (closures ?w2 ?b))"
  have f: "frame (token (ctx d)) ?w2 (set_value (ctx d) n ?v ?w2)"
    unfolding set_value_def by (rule frame_dispatch(3))
  have "contextMap (set_value (ctx d) n ?v ?w2) t = contextMap w t"
    using f assms watchEach_store[OF assms, of kl n "contexts d" 0 w] by (simp add: frame_def)
  then show ?thesis
    by (simp add: derivedConnected_def Let_def sync_def)
qed

lemma foldl_unwatch_store:
  "contextMap (foldl (\<lambda>w' fn. unwatch fn w') w fns) = contextMap w"
proof (induction fns arbitrary: w)
  case Nil
  show ?case by simp
next
  case (Cons fn fns)
  have "contextMap (unwatch fn w) = contextMap w" by (cases fn) (simp add: unwatch_def)
  then show ?case using Cons by simp
qed

lemma derivedDisconnected_store:
  "contextMap (derivedDisconnected kl d n w) = contextMap w"
  by (simp add: derivedDisconnected_def Let_def foldl_unwatch_store)

text \<open>
  Claim C10. The flag \<^verbatim>\<open>ready\<close>, the slots \<^verbatim>\<open>values\<close> and the list \<^verbatim>\<open>dispose\<close> of a derived
  provider belong to the decorated class \<open>kl\<close>, not to an instance: \<open>n1\<close>, \<open>n2\<close> and \<open>n\<close> below are
  any instances of the class, or the same one. Attaching \<open>n1\<close> appends one unsubscribe
  function for each upstream context and sets the flag; detaching clears the flag and
  leaves the list as it is; the next attach, of \<open>n2\<close>, appends its subscriptions after the
  stale entries of the first cycle. With both \<open>n1\<close> and \<open>n2\<close> attached, detaching \<open>n2\<close> clears the
  flag that \<open>n1\<close> reads and releases the subscriptions of \<open>n1\<close> as well. The callback of lines
  52-55 of any instance \<open>n\<close> writes its value into slot \<open>i\<close> of the class. An attach of \<open>n1\<close>
  while the flag is not set fills the slots with the upstream values of \<open>n1\<close>; the detach
  leaves them there; the attach of \<open>n2\<close> overwrites them with the upstream values of \<open>n2\<close>.
\<close>

theorem derived_closure_is_per_class:
  "(let b = (kl, token (ctx d));
        w1 = derivedConnected kl d n1 w;
        w2 = derivedDisconnected kl d n1 w1;
        w3 = derivedConnected kl d n2 w2;
        w4 = derivedConnected kl d n1 w3;
        w5 = derivedDisconnected kl d n2 w4
    in dispose (closures w1 b) = dispose (closures w b) @ stopFns kl d n1 (contexts d) 0 (fresh w) \<and>
       ready (closures w1 b) \<and>
       dispose (closures w2 b) = dispose (closures w1 b) \<and>
       \<not> ready (closures w2 b) \<and>
       dispose (closures w3 b) = dispose (closures w1 b) @ stopFns kl d n2 (contexts d) 0 (fresh w2) \<and>
       ready (closures w3 b) \<and>
       length (dispose (closures w3 b)) = length (dispose (closures w b)) + 2 * length (contexts d) \<and>
       \<not> ready (closures w5 b) \<and>
       (\<forall>(el, l) \<in> set (stopFns kl d n1 (contexts d) 0 (fresh w3)).
          \<not> list_ex (sameUpdateFn l) (updateListeners w5 el)) \<and>
       values (closures (handleCall L n (DerivedHandle kl d i) v w) b) =
         arraySet (values (closures w b)) i v \<and>
       (\<not> ready (closures w b) \<and> list_all (idBelow (fresh w)) (updateListeners w n1) \<longrightarrow>
          values (closures w1 b) =
            map (\<lambda>c. get c n1 w) (contexts d) @ drop (length (contexts d)) (values (closures w b))) \<and>
       values (closures w2 b) = values (closures w1 b) \<and>
       (list_all (idBelow (fresh w)) (updateListeners w n2) \<longrightarrow>
          values (closures w3 b) =
            map (\<lambda>c. get c n2 w2) (contexts d) @ drop (length (contexts d)) (values (closures w1 b))))"
proof -
  let ?b = "(kl, token (ctx d))"
  let ?w1 = "derivedConnected kl d n1 w"
  let ?w2 = "derivedDisconnected kl d n1 ?w1"
  let ?w3 = "derivedConnected kl d n2 ?w2"
  let ?w4 = "derivedConnected kl d n1 ?w3"
  let ?w5 = "derivedDisconnected kl d n2 ?w4"
  have "set (stopFns kl d n1 (contexts d) 0 (fresh ?w3)) \<subseteq> set (dispose (closures ?w4 ?b))"
    by (simp add: derivedConnected_closure(1)[of kl d n1 ?w3])
  then have rel: "\<forall>(el, l) \<in> set (stopFns kl d n1 (contexts d) 0 (fresh ?w3)).
          \<not> list_ex (sameUpdateFn l) (updateListeners ?w5 el)"
    using derivedDisconnected_releases[of _ _ ?w4 kl d n2] by blast
  have v0: "values (closures (handleCall L n (DerivedHandle kl d i) v w) ?b) =
         arraySet (values (closures w ?b)) i v"
    by (rule handleCall_slot)
  have v1: "values (closures ?w1 ?b) =
            map (\<lambda>c. get c n1 w) (contexts d) @ drop (length (contexts d)) (values (closures w ?b))"
    if "\<not> ready (closures w ?b) \<and> list_all (idBelow (fresh w)) (updateListeners w n1)"
    using that by (intro derivedConnected_slots) simp_all
  have v2: "values (closures ?w2 ?b) = values (closures ?w1 ?b)"
    by (rule derivedDisconnected_slots)
  have v3: "values (closures ?w3 ?b) =
            map (\<lambda>c. get c n2 ?w2) (contexts d) @ drop (length (contexts d)) (values (closures ?w1 ?b))"
    if ids: "list_all (idBelow (fresh w)) (updateListeners w n2)"
  proof -
    have "list_all (idBelow (fresh ?w2)) (updateListeners ?w2 n2)"
      by (intro derivedDisconnected_ids derivedConnected_ids ids)
    then show ?thesis
      using derivedConnected_slots[of ?w2 kl d n2] derivedDisconnected_closure(2)[of kl d n1 ?w1]
      by (simp add: v2)
  qed
  have old: "dispose (closures ?w1 ?b) = dispose (closures w ?b) @ stopFns kl d n1 (contexts d) 0 (fresh w) \<and>
       ready (closures ?w1 ?b) \<and>
       dispose (closures ?w2 ?b) = dispose (closures ?w1 ?b) \<and>
       \<not> ready (closures ?w2 ?b) \<and>
       dispose (closures ?w3 ?b) = dispose (closures ?w1 ?b) @ stopFns kl d n2 (contexts d) 0 (fresh ?w2) \<and>
       ready (closures ?w3 ?b) \<and>
       length (dispose (closures ?w3 ?b)) = length (dispose (closures w ?b)) + 2 * length (contexts d) \<and>
       \<not> ready (closures ?w5 ?b)"
    by (simp add: derivedConnected_closure derivedDisconnected_closure length_stopFns)
  show ?thesis
    unfolding Let_def using old rel v0 v1 v2 v3 by blast
qed

theorem derived_closure_is_per_class_witness:
  "(let b = (10, token (ctx dA));
        w1 = derivedConnected 10 dA 3 emptyWorld;
        w2 = derivedDisconnected 10 dA 3 w1;
        w3 = derivedConnected 10 dA 4 w2;
        w4 = derivedConnected 10 dA 3 w3;
        w5 = derivedDisconnected 10 dA 4 w4;
        u1 = derivedConnected 10 dA 3 fiveAtThree;
        u2 = derivedDisconnected 10 dA 3 u1;
        u3 = derivedConnected 10 dA 4 u2
    in (3, HandleUpdate 2 c0 (DerivedHandle 10 dA 0)) \<in> set (stopFns 10 dA 3 (contexts dA) 0 (fresh w3)) \<and>
       \<not> list_ex (sameUpdateFn (HandleUpdate 2 c0 (DerivedHandle 10 dA 0))) (updateListeners w5 3) \<and>
       dispose (closures w3 b) =
         [(3, HandleUpdate 0 c0 (DerivedHandle 10 dA 0)), (4, HandleUpdate 1 c0 (DerivedHandle 10 dA 0))] \<and>
       ready (closures w3 b) \<and> \<not> ready (closures w5 b) \<and>
       \<not> ready (closures fiveAtThree b) \<and>
       list_all (idBelow (fresh fiveAtThree)) (updateListeners fiveAtThree 3) \<and>
       list_all (idBelow (fresh fiveAtThree)) (updateListeners fiveAtThree 4) \<and>
       values (closures u1 b) = [Num 5] \<and> values (closures u2 b) = [Num 5] \<and>
       values (closures u3 b) = [Num 0] \<and>
       values (closures (handleCall [] 4 (DerivedHandle 10 dA 0) (Num 8) u2) b) = [Num 8])"
proof -
  let ?b = "(10, token (ctx dA))"
  let ?w1 = "derivedConnected 10 dA 3 emptyWorld"
  let ?w2 = "derivedDisconnected 10 dA 3 ?w1"
  let ?w3 = "derivedConnected 10 dA 4 ?w2"
  let ?w4 = "derivedConnected 10 dA 3 ?w3"
  let ?w5 = "derivedDisconnected 10 dA 4 ?w4"
  let ?u1 = "derivedConnected 10 dA 3 fiveAtThree"
  let ?u2 = "derivedDisconnected 10 dA 3 ?u1"
  let ?u3 = "derivedConnected 10 dA 4 ?u2"
  have c: "contexts dA = [c0]" by (simp add: dA_def derivedContext_def)
  have e: "fresh emptyWorld = 0" "dispose (closures emptyWorld b) = []" for b
    by (simp_all add: emptyWorld_def)
  have f: "fresh ?w2 = 1" "fresh ?w3 = 2"
    by (simp_all add: c e derivedConnected_closure(3) derivedDisconnected_closure(3))
  note T = derived_closure_is_per_class[where kl=10 and d=dA and ?n1.0=3 and w=emptyWorld
      and ?n2.0=4, unfolded Let_def]
  have d1: "dispose (closures ?w1 ?b) = [(3, HandleUpdate 0 c0 (DerivedHandle 10 dA 0))]"
    using T[THEN conjunct1] by (simp add: c e)
  have d3: "dispose (closures ?w3 ?b) =
         [(3, HandleUpdate 0 c0 (DerivedHandle 10 dA 0)), (4, HandleUpdate 1 c0 (DerivedHandle 10 dA 0))]"
    using T d1 by (simp add: c f)
  have r: "ready (closures ?w3 ?b)" "\<not> ready (closures ?w5 ?b)"
    using T by simp_all
  have m: "(3, HandleUpdate 2 c0 (DerivedHandle 10 dA 0)) \<in> set (stopFns 10 dA 3 (contexts dA) 0 (fresh ?w3))"
    by (simp add: c f)
  have "\<forall>(el, l) \<in> set (stopFns 10 dA 3 (contexts dA) 0 (fresh ?w3)).
          \<not> list_ex (sameUpdateFn l) (updateListeners ?w5 el)"
    using T by blast
  then have n: "\<not> list_ex (sameUpdateFn (HandleUpdate 2 c0 (DerivedHandle 10 dA 0))) (updateListeners ?w5 3)"
    using m by blast
  have h: "\<not> ready (closures fiveAtThree ?b)"
    "list_all (idBelow (fresh fiveAtThree)) (updateListeners fiveAtThree 3)"
    "list_all (idBelow (fresh fiveAtThree)) (updateListeners fiveAtThree 4)"
    "values (closures fiveAtThree ?b) = []" "get c0 3 fiveAtThree = Num 5"
    by (simp_all add: fiveAtThree_def c0_def createContext_def emptyWorld_def set_value_def
        notEqual_def get_def)
  note U = derived_closure_is_per_class[where kl=10 and d=dA and ?n1.0=3 and w=fiveAtThree
      and ?n2.0=4 and L="[]" and n=4 and i=0 and v="Num 8", unfolded Let_def]
  note U' = U[THEN conjunct2, THEN conjunct2, THEN conjunct2, THEN conjunct2, THEN conjunct2,
      THEN conjunct2, THEN conjunct2, THEN conjunct2, THEN conjunct2]
  have v1: "values (closures ?u1 ?b) = [Num 5]"
    using U'[THEN conjunct2, THEN conjunct1, THEN mp, OF conjI[OF h(1,2)]] by (simp add: c h)
  have v2: "values (closures ?u2 ?b) = [Num 5]"
    using U'[THEN conjunct2, THEN conjunct2, THEN conjunct1] v1 by simp
  have "token c0 < token (ctx dA)"
    by (simp add: dA_def derivedContext_def c0_def createContext_def)
  then have "get c0 4 ?u2 = get c0 4 fiveAtThree"
    by (simp add: get_def derivedDisconnected_store derivedConnected_store)
  then have g: "get c0 4 ?u2 = Num 0"
    by (simp add: fiveAtThree_def c0_def createContext_def emptyWorld_def set_value_def
        notEqual_def get_def)
  have v3: "values (closures ?u3 ?b) = [Num 0]"
    using U'[THEN conjunct2, THEN conjunct2, THEN conjunct2, THEN mp, OF h(3)] v1
    by (simp add: c g)
  note V = derived_closure_is_per_class[where kl=10 and d=dA and w="?u2" and L="[]" and n=4
      and i=0 and v="Num 8", unfolded Let_def]
  have v4: "values (closures (handleCall [] 4 (DerivedHandle 10 dA 0) (Num 8) ?u2) ?b) = [Num 8]"
    using V[THEN conjunct2, THEN conjunct2, THEN conjunct2, THEN conjunct2, THEN conjunct2,
      THEN conjunct2, THEN conjunct2, THEN conjunct2, THEN conjunct2, THEN conjunct1] v2
    by (simp add: arraySet_def)
  show ?thesis
    unfolding Let_def using m n d3 r h(1,2,3) v1 v2 v3 v4 by (simp only: simp_thms)
qed

end
